theory Spec2Isabelle
  imports Main "HOL-Library.AList"
begin

section \<open>Data model (src/lib/types.ts)\<close>

text \<open>
  Identifiers are the strings returned by \<^verbatim>\<open>generateId()\<close>. Numbers that the code only
  counts with (\<^verbatim>\<open>currentLoad\<close>, \<^verbatim>\<open>capacity\<close>, reader counts, progress) are integers. An
  optional field \<^verbatim>\<open>f?: T\<close> is a \<open>T option\<close>, \<^verbatim>\<open>undefined\<close> being \<open>None\<close>.
\<close>

type_synonym ident = string

datatype IPCType = Pipe | Queue | Memory

datatype ProcessState = Idle | Running | Blocked | Deadlocked

datatype ConnectionState = ConnIdle | ConnActive | ConnDeadlocked

datatype MemoryAccessType = Read | Write

datatype TransferType = Produce | Consume

record Process =
  p_id :: ident
  p_name :: string
  position :: "int \<times> int"
  p_state :: ProcessState
  resources :: "ident list"
  waitingFor :: "ident option"
  memoryAccess :: "(MemoryAccessType \<times> ident) option"

record Semaphore =
  maxReaders :: int
  currentReaders :: int
  hasWriter :: bool

record MemoryRegion =
  region_id :: ident
  semaphore :: Semaphore

record Connection =
  c_id :: ident
  c_from :: ident
  c_to :: ident
  c_type :: IPCType
  c_state :: ConnectionState
  capacity :: "int option"
  currentLoad :: "int option"
  memoryRegion :: "MemoryRegion option"

record DataTransfer =
  t_id :: ident
  connectionId :: ident
  startTime :: int
  progress :: int
  t_size :: int
  t_type :: TransferType

text \<open>
  \<^verbatim>\<open>x || d\<close> on an optional number: \<^verbatim>\<open>undefined\<close> and \<^verbatim>\<open>0\<close> are falsy and give \<open>d\<close>.
\<close>

definition num_or :: "int option \<Rightarrow> int \<Rightarrow> int" where
  "num_or x d = (case x of None \<Rightarrow> d | Some v \<Rightarrow> if v = 0 then d else v)"

text \<open>
  \<^verbatim>\<open>connection.type === "memory" && connection.memoryRegion\<close>: the region a memory
  connection carries, if it carries one.
\<close>

definition memory_region_of :: "Connection \<Rightarrow> MemoryRegion option" where
  "memory_region_of c = (if c_type c = Memory then memoryRegion c else None)"

text \<open>\<^verbatim>\<open>c.memoryRegion?.id === region.id\<close>\<close>

definition references :: "Connection \<Rightarrow> MemoryRegion \<Rightarrow> bool" where
  "references c region = (map_option region_id (memoryRegion c) = Some (region_id region))"

section \<open>Cycle detection (src/lib/deadlock-utils.ts)\<close>

text \<open>
  A \<^verbatim>\<open>DeadlockCycle\<close> without its \<^verbatim>\<open>id\<close> (a fresh \<^verbatim>\<open>generateId()\<close>) and its
  \<^verbatim>\<open>detectedAt\<close> (the clock), which no claim reads.
\<close>

record DeadlockCycle =
  cyc_processes :: "ident list"
  cyc_connections :: "ident list"
  resolved :: bool

text \<open>
  The dependency graph is a JavaScript object used as a dictionary: an association list in
  the order in which the keys were first written, updated in place when the key exists and
  extended at the end otherwise, which is \<^const>\<open>AList.update\<close>.
\<close>

type_synonym graph = "(ident \<times> ident list) list"

definition add_edge :: "Connection \<Rightarrow> graph \<Rightarrow> graph" where
  "add_edge conn g =
     (let g1 = (if map_of g (c_from conn) = None then AList.update (c_from conn) [] g else g)
      in AList.update (c_from conn)
           ((case map_of g1 (c_from conn) of Some ns \<Rightarrow> ns | None \<Rightarrow> []) @ [c_to conn]) g1)"

definition buildGraph :: "Process list \<Rightarrow> Connection list \<Rightarrow> graph" where
  "buildGraph ps activeConnections =
     fold add_edge activeConnections (fold (\<lambda>p g. AList.update (p_id p) [] g) ps [])"

text \<open>\<^verbatim>\<open>graph[nodeId] || []\<close>\<close>

definition neighbors :: "graph \<Rightarrow> ident \<Rightarrow> ident list" where
  "neighbors g n = (case map_of g n of Some ns \<Rightarrow> ns | None \<Rightarrow> [])"

text \<open>
  \<^verbatim>\<open>Object.keys\<close> lists first the keys that are array indices (a decimal numeral without a
  leading zero, below \<open>2\<^sup>3\<^sup>2 - 1\<close>), by ascending value, and then the other keys in the
  order in which they were written.
\<close>

definition is_digit :: "char \<Rightarrow> bool" where
  "is_digit c = (c \<in> set ''0123456789'')"

definition digits_value :: "string \<Rightarrow> int" where
  "digits_value cs = fold (\<lambda>c n. 10 * n + (of_char c - 48)) cs 0"

definition array_index :: "string \<Rightarrow> int option" where
  "array_index k =
     (if k \<noteq> [] \<and> list_all is_digit k \<and> (k = ''0'' \<or> hd k \<noteq> CHR ''0'') \<and>
         digits_value k < 4294967295
      then Some (digits_value k) else None)"

definition object_keys :: "graph \<Rightarrow> ident list" where
  "object_keys g =
     (let ks = map fst g
      in sort_key (\<lambda>k. case array_index k of Some n \<Rightarrow> n | None \<Rightarrow> 0)
           (filter (\<lambda>k. array_index k \<noteq> None) ks)
         @ filter (\<lambda>k. array_index k = None) ks)"

text \<open>\<^verbatim>\<open>Array.prototype.indexOf\<close> (\<open>-1\<close> when absent) and \<^verbatim>\<open>slice(start)\<close> (a negative start
  counts from the end).\<close>

fun indexOf :: "'a list \<Rightarrow> 'a \<Rightarrow> int" where
  "indexOf [] x = -1"
| "indexOf (y # ys) x =
     (if y = x then 0 else (let i = indexOf ys x in if i < 0 then -1 else i + 1))"

definition slice :: "'a list \<Rightarrow> int \<Rightarrow> 'a list" where
  "slice xs i = (if i < 0 then drop (length xs - nat (- i)) xs else drop (nat i) xs)"

text \<open>
  The mutable variables the closure \<^verbatim>\<open>findCycles\<close> shares: the two \<^verbatim>\<open>Set\<close>s and the
  result array. A \<^verbatim>\<open>Set\<close> is a list without repetition: \<open>set_add\<close> is \<^verbatim>\<open>add\<close>,
  \<^const>\<open>removeAll\<close> is \<^verbatim>\<open>delete\<close>.
\<close>

record dfs_state =
  visited :: "ident list"
  recursionStack :: "ident list"
  cycles :: "DeadlockCycle list"

definition set_add :: "'a \<Rightarrow> 'a list \<Rightarrow> 'a list" where
  "set_add x xs = (if x \<in> set xs then xs else xs @ [x])"

text \<open>
  \<open>findCycles\<close> is the recursive closure; \<open>visitNeighbors\<close> is its \<^verbatim>\<open>for (const neighbor of
  neighbors)\<close> loop, whose body calls \<open>findCycles\<close> on the state the previous iterations left.
\<close>

function findCycles ::
    "Connection list \<Rightarrow> graph \<Rightarrow> ident \<Rightarrow> ident list \<Rightarrow> ident list \<Rightarrow> dfs_state \<Rightarrow> dfs_state"
  and visitNeighbors ::
    "Connection list \<Rightarrow> graph \<Rightarrow> ident \<Rightarrow> ident list \<Rightarrow> ident list \<Rightarrow> ident list \<Rightarrow>
       dfs_state \<Rightarrow> dfs_state"
where
  "findCycles ac g nodeId path connPath s =
     (if nodeId \<in> set (recursionStack s) then
        (let cycleStartIndex = indexOf path nodeId;
             cyclePath = slice path cycleStartIndex @ [nodeId];
             cycleConnections = slice connPath cycleStartIndex
         in s\<lparr>cycles := cycles s @
              [\<lparr>cyc_processes = cyclePath, cyc_connections = cycleConnections,
                resolved = False\<rparr>]\<rparr>)
      else if nodeId \<in> set (visited s) then s
      else
        (let s1 = s\<lparr>visited := set_add nodeId (visited s),
                    recursionStack := set_add nodeId (recursionStack s)\<rparr>;
             s2 = visitNeighbors ac g nodeId (neighbors g nodeId) path connPath s1
         in s2\<lparr>recursionStack := removeAll nodeId (recursionStack s2)\<rparr>))"
| "visitNeighbors ac g nodeId [] path connPath s = s"
| "visitNeighbors ac g nodeId (neighbor # rest) path connPath s =
     visitNeighbors ac g nodeId rest path connPath
       (case find (\<lambda>c. c_from c = nodeId \<and> c_to c = neighbor) ac of
          Some conn \<Rightarrow> findCycles ac g neighbor (path @ [nodeId]) (connPath @ [c_id conn]) s
        | None \<Rightarrow> s)"
  by pat_completeness auto

definition dfs_init :: dfs_state where
  "dfs_init = \<lparr>visited = [], recursionStack = [], cycles = []\<rparr>"

definition detectDeadlockCycles :: "Process list \<Rightarrow> Connection list \<Rightarrow> DeadlockCycle list" where
  "detectDeadlockCycles ps cs =
     (let activeConnections = filter (\<lambda>c. c_state c = ConnActive) cs;
          g = buildGraph ps activeConnections
      in cycles (fold (\<lambda>processId s. findCycles activeConnections g processId [] [] s)
                   (object_keys g) dfs_init))"

subsection \<open>What a reported cycle has to be\<close>

text \<open>
  \<open>walk ac ps cs\<close>: the processes \<open>ps\<close> are joined, one after the other, by connections of
  \<open>ac\<close> whose identifiers are \<open>cs\<close>, in order. A report traces a cycle when it is a walk of at
  least one connection that ends where it starts and repeats no other process.
\<close>

fun walk :: "Connection list \<Rightarrow> ident list \<Rightarrow> ident list \<Rightarrow> bool" where
  "walk ac [p] [] = True"
| "walk ac (p # q # ps) (c # cs) =
     ((\<exists>conn\<in>set ac. c_id conn = c \<and> c_from conn = p \<and> c_to conn = q) \<and> walk ac (q # ps) cs)"
| "walk ac ps cs = False"

definition traces_cycle :: "Connection list \<Rightarrow> ident list \<Rightarrow> ident list \<Rightarrow> bool" where
  "traces_cycle ac ps cs = (walk ac ps cs \<and> cs \<noteq> [] \<and> hd ps = last ps \<and> distinct (butlast ps))"

definition has_cycle :: "Connection list \<Rightarrow> bool" where
  "has_cycle ac = (\<exists>ps cs. walk ac ps cs \<and> cs \<noteq> [] \<and> hd ps = last ps)"

definition active :: "Connection list \<Rightarrow> Connection list" where
  "active cs = filter (\<lambda>c. c_state c = ConnActive) cs"

text \<open>
  The connections \<open>ac\<close> are the three edges of a cycle through three different processes;
  \<open>lap c1 c2 c3\<close> is that cycle told from the source of \<open>c1\<close>.
\<close>

definition three_cycle :: "Connection list \<Rightarrow> Connection \<Rightarrow> Connection \<Rightarrow> Connection \<Rightarrow> bool" where
  "three_cycle ac c1 c2 c3 =
     (set ac = {c1, c2, c3} \<and> c_to c1 = c_from c2 \<and> c_to c2 = c_from c3 \<and> c_to c3 = c_from c1 \<and>
      distinct [c_from c1, c_from c2, c_from c3])"

definition lap :: "Connection \<Rightarrow> Connection \<Rightarrow> Connection \<Rightarrow> ident list \<times> ident list" where
  "lap c1 c2 c3 = ([c_from c1, c_from c2, c_from c3, c_from c1], [c_id c1, c_id c2, c_id c3])"

text \<open>Notions the proofs about the search use.\<close>

definition edges :: "Connection list \<Rightarrow> (ident \<times> ident) set" where
  "edges ac = (\<lambda>c. (c_from c, c_to c)) ` set ac"

definition finished :: "dfs_state \<Rightarrow> ident set" where
  "finished s = set (visited s) - set (recursionStack s)"

definition good :: "Connection list \<Rightarrow> DeadlockCycle \<Rightarrow> bool" where
  "good ac cyc = traces_cycle ac (cyc_processes cyc) (cyc_connections cyc)"

definition succ_closed :: "Connection list \<Rightarrow> ident set \<Rightarrow> bool" where
  "succ_closed ac C = (\<forall>v\<in>C. \<forall>w. (v, w) \<in> edges ac \<longrightarrow> w \<in> C)"

definition dfs_inv :: "Connection list \<Rightarrow> dfs_state \<Rightarrow> bool" where
  "dfs_inv ac s = (succ_closed ac (finished s) \<and> (\<forall>v\<in>finished s. (v, v) \<notin> (edges ac)\<^sup>+))"

definition scan :: "Connection list \<Rightarrow> graph \<Rightarrow> ident list \<Rightarrow> dfs_state \<Rightarrow> dfs_state" where
  "scan ac g ks s = fold (\<lambda>processId s. findCycles ac g processId [] [] s) ks s"

section \<open>The canvas (src/components/ProcessCanvas.tsx)\<close>

text \<open>
  The component keeps three state cells. A handler is a closure created by one render: the
  names \<^verbatim>\<open>processes\<close>, \<^verbatim>\<open>connections\<close> and \<^verbatim>\<open>dataTransfers\<close> in its body are the
  constants of that render, whatever the handler has already asked to change, and a call
  \<^verbatim>\<open>setProcesses(v)\<close> asks to replace the whole cell by \<open>v\<close>. So a handler is a function from
  the snapshot it closes over to the list of replacements it asks for, in call order, and the
  state after the handler is the snapshot with every asked replacement made in that order: of
  two replacements of one cell, the later one stays. A callback given to \<^verbatim>\<open>setTimeout\<close> closes
  over the same snapshot; its replacements are therefore known when it is registered, and are
  kept with its delay.
\<close>

record canvas =
  processes :: "Process list"
  connections :: "Connection list"
  dataTransfers :: "DataTransfer list"

datatype cell_write =
    SetProcesses "Process list"
  | SetConnections "Connection list"
  | SetDataTransfers "DataTransfer list"

fun apply_write :: "cell_write \<Rightarrow> canvas \<Rightarrow> canvas" where
  "apply_write (SetProcesses ps) s = s\<lparr>processes := ps\<rparr>"
| "apply_write (SetConnections cs) s = s\<lparr>connections := cs\<rparr>"
| "apply_write (SetDataTransfers ts) s = s\<lparr>dataTransfers := ts\<rparr>"

definition commit :: "cell_write list \<Rightarrow> canvas \<Rightarrow> canvas" where
  "commit ws s = fold apply_write ws s"

text \<open>
  The paths through \<^verbatim>\<open>sendData\<close> and \<^verbatim>\<open>consumeData\<close>, named after what each one tells the
  user; \<open>Started\<close> is the path that allocates the transfer, \<open>TransientBlock\<close> the random
  contention path of a queue.
\<close>

datatype outcome =
    Started
  | NoConnection
  | QueueFull
  | QueueEmpty
  | TransientBlock
  | MemoryLocked
  | MaxReadersReached

record effect =
  outcome :: outcome
  writes :: "cell_write list"
  timers :: "(nat \<times> cell_write list) list"

text \<open>
  What a call takes from outside the state: the draw \<^verbatim>\<open>Math.random() < 0.2\<close>, the
  identifiers \<^verbatim>\<open>generateId()\<close> returns, the clock and the random packet size.
\<close>

record inputs =
  blockRoll :: bool
  newResource :: ident
  newReadResource :: ident
  newTransfer :: ident
  now :: int
  packetSize :: int

subsection \<open>checkForDeadlocks\<close>

definition busyProcesses :: "Connection list \<Rightarrow> ident list" where
  "busyProcesses activeConnections =
     fold (\<lambda>conn busy. set_add (c_to conn) (set_add (c_from conn) busy)) activeConnections []"

definition saturated :: "canvas \<Rightarrow> bool" where
  "saturated s =
     (let activeConnections = filter (\<lambda>c. c_state c = ConnActive) (connections s)
      in 0 < length activeConnections \<and>
         length (busyProcesses activeConnections) = length (processes s) \<and>
         1 < length (processes s))"

definition checkForDeadlocks :: "canvas \<Rightarrow> cell_write list" where
  "checkForDeadlocks s =
     (if saturated s then
        [SetProcesses (map (\<lambda>p. p\<lparr>p_state := Deadlocked\<rparr>) (processes s)),
         SetConnections
           (map (\<lambda>c. c\<lparr>c_state := (if c_state c = ConnActive then ConnDeadlocked else c_state c)\<rparr>)
              (connections s))]
      else [])"

subsection \<open>sendData and its release callback\<close>

definition set_semaphore :: "(Semaphore \<Rightarrow> Semaphore) \<Rightarrow> Connection \<Rightarrow> Connection" where
  "set_semaphore f c =
     c\<lparr>memoryRegion := map_option (\<lambda>r. r\<lparr>semaphore := f (semaphore r)\<rparr>) (memoryRegion c)\<rparr>"

definition resolve :: "ident \<Rightarrow> ident \<Rightarrow> Connection list \<Rightarrow> Connection option" where
  "resolve fromProcessId toProcessId cs =
     find (\<lambda>c. (c_from c = fromProcessId \<and> c_to c = toProcessId) \<or>
               (c_type c = Pipe \<and> c_from c = toProcessId \<and> c_to c = fromProcessId)) cs"

definition wake_waiters :: "Connection \<Rightarrow> canvas \<Rightarrow> cell_write list" where
  "wake_waiters connection s =
     (case memory_region_of connection of
        None \<Rightarrow> []
      | Some region \<Rightarrow>
          (let blockedProcesses =
                 filter (\<lambda>p. p_state p = Blocked \<and> waitingFor p = Some (region_id region))
                   (processes s)
           in if 0 < length blockedProcesses then
                [SetProcesses
                   (map (\<lambda>p. if waitingFor p = Some (region_id region)
                              then p\<lparr>p_state := Idle, waitingFor := None\<rparr> else p)
                      (processes s))]
              else []))"

definition release_process :: "ident \<Rightarrow> ident \<Rightarrow> canvas \<Rightarrow> cell_write" where
  "release_process processId resourceId s =
     SetProcesses
       (map (\<lambda>p. if p_id p = processId
                  then p\<lparr>p_state := Idle,
                         resources := filter (\<lambda>r. r \<noteq> resourceId) (resources p),
                         memoryAccess := None\<rparr>
                  else p)
          (processes s))"

definition sendData_release :: "Connection \<Rightarrow> ident \<Rightarrow> ident \<Rightarrow> canvas \<Rightarrow> cell_write list" where
  "sendData_release connection fromProcessId resourceId s =
     (case memory_region_of connection of
        None \<Rightarrow> []
      | Some region \<Rightarrow>
          [SetConnections
             (map (\<lambda>c. if references c region
                        then set_semaphore (\<lambda>m. m\<lparr>hasWriter := False\<rparr>) c else c)
                (connections s))])
     @ [release_process fromProcessId resourceId s]
     @ wake_waiters connection s"

definition sendData :: "inputs \<Rightarrow> ident \<Rightarrow> ident \<Rightarrow> canvas \<Rightarrow> effect" where
  "sendData io fromProcessId toProcessId s =
     (case resolve fromProcessId toProcessId (connections s) of
        None \<Rightarrow> \<lparr>outcome = NoConnection, writes = [], timers = []\<rparr>
      | Some connection \<Rightarrow>
          if c_type connection = Queue \<and>
             num_or (capacity connection) 10 \<le> num_or (currentLoad connection) 0
          then \<lparr>outcome = QueueFull, writes = [], timers = []\<rparr>
          else if c_type connection = Queue \<and> blockRoll io
          then \<lparr>outcome = TransientBlock,
                 writes = [SetProcesses
                   (map (\<lambda>p. if p_id p = fromProcessId then p\<lparr>p_state := Blocked\<rparr> else p)
                      (processes s))],
                 timers = [(1000, [SetProcesses
                   (map (\<lambda>p. if p_id p = fromProcessId then p\<lparr>p_state := Idle\<rparr> else p)
                      (processes s))])]\<rparr>
          else
            (case (case memory_region_of connection of
                     Some region \<Rightarrow>
                       if hasWriter (semaphore region) \<or> 0 < currentReaders (semaphore region)
                       then Some region else None
                   | None \<Rightarrow> None) of
               Some region \<Rightarrow>
                 \<lparr>outcome = MemoryLocked,
                   writes = [SetProcesses
                     (map (\<lambda>p. if p_id p = fromProcessId
                                then p\<lparr>p_state := Blocked, waitingFor := Some (region_id region)\<rparr>
                                else p)
                        (processes s))],
                   timers = []\<rparr>
             | None \<Rightarrow>
                 (let resourceId =
                        (if c_type connection = Memory then ''mem_'' @ newResource io
                         else ''res_'' @ newResource io);
                      newTransfer =
                        \<lparr>t_id = newTransfer io, connectionId = c_id connection,
                          startTime = now io, progress = 0, t_size = packetSize io,
                          t_type = Produce\<rparr>
                  in \<lparr>outcome = Started,
                      writes =
                        (case memory_region_of connection of
                           None \<Rightarrow> []
                         | Some region \<Rightarrow>
                             [SetConnections
                                (map (\<lambda>c. if references c region
                                           then set_semaphore (\<lambda>m. m\<lparr>hasWriter := True\<rparr>) c
                                           else c)
                                   (connections s))])
                        @ [SetProcesses
                             (map (\<lambda>p. if p_id p = fromProcessId
                                        then p\<lparr>p_state := Running,
                                               resources := resources p @ [resourceId]\<rparr>
                                        else p)
                                (processes s)),
                           SetDataTransfers (dataTransfers s @ [newTransfer]),
                           SetConnections
                             (map (\<lambda>c. if c_id c = c_id connection
                                        then c\<lparr>c_state := ConnActive,
                                               currentLoad := Some (num_or (currentLoad c) 0 + 1)\<rparr>
                                        else c)
                                (connections s))]
                        @ checkForDeadlocks s,
                      timers =
                        [(2000, sendData_release connection fromProcessId resourceId s)]\<rparr>)))"

subsection \<open>consumeData and its release callback\<close>

definition consumeData_release :: "Connection \<Rightarrow> ident \<Rightarrow> ident \<Rightarrow> canvas \<Rightarrow> cell_write list" where
  "consumeData_release connection toProcessId resourceId s =
     (case memory_region_of connection of
        None \<Rightarrow> []
      | Some region \<Rightarrow>
          [SetConnections
             (map (\<lambda>c. if references c region
                        then set_semaphore
                               (\<lambda>m. m\<lparr>currentReaders := max 0 (currentReaders m - 1)\<rparr>) c
                        else c)
                (connections s))])
     @ [release_process toProcessId resourceId s]
     @ wake_waiters connection s"

definition consume_transfer ::
    "inputs \<Rightarrow> Connection \<Rightarrow> ident \<Rightarrow> cell_write list \<Rightarrow> canvas \<Rightarrow> effect" where
  "consume_transfer io connection toProcessId acquired s =
     (let resourceId = newResource io;
          newTransfer =
            \<lparr>t_id = newTransfer io, connectionId = c_id connection, startTime = now io,
              progress = 0, t_size = packetSize io, t_type = Consume\<rparr>
      in \<lparr>outcome = Started,
          writes = acquired
            @ [SetProcesses
                 (map (\<lambda>p. if p_id p = toProcessId
                            then p\<lparr>p_state := Running, resources := resources p @ [resourceId]\<rparr>
                            else p)
                    (processes s)),
               SetDataTransfers (dataTransfers s @ [newTransfer]),
               SetConnections
                 (map (\<lambda>c. if c_id c = c_id connection
                            then c\<lparr>c_state := ConnActive,
                                   currentLoad := Some (max 0 (num_or (currentLoad c) 1 - 1))\<rparr>
                            else c)
                    (connections s))],
          timers = [(2000, consumeData_release connection toProcessId resourceId s)]\<rparr>)"

definition consumeData :: "inputs \<Rightarrow> ident \<Rightarrow> ident \<Rightarrow> canvas \<Rightarrow> effect" where
  "consumeData io fromProcessId toProcessId s =
     (case resolve fromProcessId toProcessId (connections s) of
        None \<Rightarrow> \<lparr>outcome = NoConnection, writes = [], timers = []\<rparr>
      | Some connection \<Rightarrow>
          if c_type connection = Queue then
            (if num_or (currentLoad connection) 0 = 0
             then \<lparr>outcome = QueueEmpty,
                    writes = [SetProcesses
                      (map (\<lambda>p. if p_id p = toProcessId then p\<lparr>p_state := Blocked\<rparr> else p)
                         (processes s))],
                    timers = [(1000, [SetProcesses
                      (map (\<lambda>p. if p_id p = toProcessId then p\<lparr>p_state := Idle\<rparr> else p)
                         (processes s))])]\<rparr>
             else consume_transfer io connection toProcessId [] s)
          else
            (case memory_region_of connection of
               None \<Rightarrow> consume_transfer io connection toProcessId [] s
             | Some region \<Rightarrow>
                 if hasWriter (semaphore region)
                 then \<lparr>outcome = MemoryLocked,
                        writes = [SetProcesses
                          (map (\<lambda>p. if p_id p = toProcessId
                                     then p\<lparr>p_state := Blocked,
                                            waitingFor := Some (region_id region)\<rparr>
                                     else p)
                             (processes s))],
                        timers = []\<rparr>
                 else if maxReaders (semaphore region) \<le> currentReaders (semaphore region)
                 then \<lparr>outcome = MaxReadersReached, writes = [], timers = []\<rparr>
                 else consume_transfer io connection toProcessId
                        [SetConnections
                           (map (\<lambda>c. if references c region
                                      then set_semaphore
                                             (\<lambda>m. m\<lparr>currentReaders := currentReaders m + 1\<rparr>) c
                                      else c)
                              (connections s)),
                         SetProcesses
                           (map (\<lambda>p. if p_id p = toProcessId
                                      then p\<lparr>p_state := Running,
                                             resources := resources p
                                               @ [''read_mem_'' @ newReadResource io],
                                             memoryAccess := Some (Read, region_id region)\<rparr>
                                      else p)
                              (processes s))]
                        s))"

subsection \<open>The progress ticker\<close>

text \<open>
  The interval callback closes over a snapshot \<open>cl\<close> but changes the cells through updater
  functions, which receive the current state \<open>cur\<close>.
\<close>

definition decrementLoad :: "ident \<Rightarrow> Connection list \<Rightarrow> Connection list" where
  "decrementLoad connId cs =
     map (\<lambda>c. if c_id c = connId
               then c\<lparr>currentLoad := Some (max 0 (num_or (currentLoad c) 0 - 1))\<rparr> else c) cs"

definition tick :: "canvas \<Rightarrow> canvas \<Rightarrow> canvas" where
  "tick cl cur =
     (let prev = dataTransfers cur;
          completedTransfers = filter (\<lambda>t. 100 \<le> progress t) prev;
          updatedTransfers =
            filter (\<lambda>t. progress t < 100)
              (map (\<lambda>t. if 100 \<le> progress t then t else t\<lparr>progress := progress t + 10\<rparr>) prev)
      in cur\<lparr>dataTransfers := updatedTransfers,
              connections :=
                fold (\<lambda>transfer cs.
                        case find (\<lambda>c. c_id c = connectionId transfer) (connections cl) of
                          Some connection \<Rightarrow> decrementLoad (c_id connection) cs
                        | None \<Rightarrow> cs)
                  completedTransfers (connections cur)\<rparr>)"

subsection \<open>completeConnection\<close>

record connectMode =
  cm_active :: bool
  fromProcess :: "ident option"
  cm_type :: IPCType

datatype connect_outcome = Ignored | Created | DuplicateConnection

definition completeConnection ::
    "ident \<Rightarrow> ident \<Rightarrow> ident \<Rightarrow> connectMode \<Rightarrow> Connection list \<Rightarrow>
       connect_outcome \<times> Connection list" where
  "completeConnection newId newRegionId toProcessId cm cs =
     (case (if cm_active cm then fromProcess cm else None) of
        None \<Rightarrow> (Ignored, cs)
      | Some fromProcessId \<Rightarrow>
          if fromProcessId = [] \<or> fromProcessId = toProcessId then (Ignored, cs)
          else
            (case (if cm_type cm = Memory
                   then find (\<lambda>conn. c_type conn = Memory \<and> memoryRegion conn \<noteq> None) cs
                   else None) of
               Some existingMemoryConnection \<Rightarrow>
                 (Created,
                  cs @ [\<lparr>c_id = newId, c_from = fromProcessId, c_to = toProcessId,
                          c_type = Memory, c_state = ConnIdle, capacity = None,
                          currentLoad = None,
                          memoryRegion = memoryRegion existingMemoryConnection\<rparr>])
             | None \<Rightarrow>
                 if list_ex (\<lambda>conn. (c_from conn = fromProcessId \<and> c_to conn = toProcessId) \<or>
                                    (c_from conn = toProcessId \<and> c_to conn = fromProcessId \<and>
                                     c_type conn = Pipe)) cs
                 then (DuplicateConnection, cs)
                 else
                   (Created,
                    cs @ [\<lparr>c_id = newId, c_from = fromProcessId, c_to = toProcessId,
                            c_type = cm_type cm, c_state = ConnIdle,
                            capacity = (if cm_type cm = Queue then Some 10 else None),
                            currentLoad = Some 0,
                            memoryRegion =
                              (if cm_type cm = Memory
                               then Some \<lparr>region_id = newRegionId,
                                          semaphore = \<lparr>maxReaders = 5, currentReaders = 0,
                                                       hasWriter = False\<rparr>\<rparr>
                               else None)\<rparr>])))"

subsection \<open>The demonstrations\<close>

definition mkProcess :: "ident \<Rightarrow> string \<Rightarrow> int \<times> int \<Rightarrow> Process" where
  "mkProcess i n pos =
     \<lparr>p_id = i, p_name = n, position = pos, p_state = Idle, resources = [],
       waitingFor = None, memoryAccess = None\<rparr>"

definition demoConnection :: "IPCType \<Rightarrow> int option \<Rightarrow> ident \<Rightarrow> ident \<Rightarrow> ident \<Rightarrow> Connection" where
  "demoConnection ty cap i f t =
     \<lparr>c_id = i, c_from = f, c_to = t, c_type = ty, c_state = ConnIdle, capacity = cap,
       currentLoad = Some 0, memoryRegion = None\<rparr>"

text \<open>The canvas once both steps of \<^verbatim>\<open>createDeadlockDemoSimulation\<close> have run.\<close>

definition createDeadlockDemoSimulation ::
    "ident \<Rightarrow> ident \<Rightarrow> ident \<Rightarrow> ident \<Rightarrow> ident \<Rightarrow> ident \<Rightarrow> canvas" where
  "createDeadlockDemoSimulation p1 p2 p3 k1 k2 k3 =
     \<lparr>processes = [mkProcess p1 ''Process A'' (250, 150), mkProcess p2 ''Process B'' (450, 150),
                    mkProcess p3 ''Process C'' (350, 300)],
       connections = [demoConnection Memory None k1 p1 p2, demoConnection Memory None k2 p2 p3,
                      demoConnection Memory None k3 p3 p1],
       dataTransfers = []\<rparr>"

text \<open>The canvas once both steps of \<^verbatim>\<open>createProducerConsumerSimulation\<close> have run.\<close>

definition createProducerConsumerSimulation ::
    "ident \<Rightarrow> ident \<Rightarrow> ident \<Rightarrow> ident \<Rightarrow> ident \<Rightarrow> canvas" where
  "createProducerConsumerSimulation producer consumer buffer k1 k2 =
     \<lparr>processes = [mkProcess producer ''Producer'' (200, 200),
                    mkProcess consumer ''Consumer'' (500, 200),
                    mkProcess buffer ''Buffer'' (350, 350)],
       connections = [demoConnection Queue (Some 5) k1 producer buffer,
                      demoConnection Queue (Some 5) k2 buffer consumer],
       dataTransfers = []\<rparr>"

section \<open>Notions the claims are stated with\<close>

text \<open>The canvas once the replacements a handler asked for are made.\<close>

definition after :: "effect \<Rightarrow> canvas \<Rightarrow> canvas" where
  "after e s = commit (writes e) s"

text \<open>The connection lists a sequence of replacements puts into the connections cell.\<close>

fun written_connections :: "cell_write list \<Rightarrow> Connection list list" where
  "written_connections [] = []"
| "written_connections (SetConnections cs # ws) = cs # written_connections ws"
| "written_connections (w # ws) = written_connections ws"

text \<open>Everything a call asks for, now or from its timers.\<close>

definition all_writes :: "effect \<Rightarrow> cell_write list" where
  "all_writes e = writes e @ concat (map snd (timers e))"


text \<open>The outcomes that are failures of an acquisition.\<close>

definition failed :: "outcome \<Rightarrow> bool" where
  "failed out = (out \<in> {NoConnection, QueueFull, QueueEmpty, MemoryLocked, MaxReadersReached})"

text \<open>
  The process list with the requester blocked, and waiting for the region when there is one.
\<close>

definition block :: "ident \<Rightarrow> ident option \<Rightarrow> Process list \<Rightarrow> Process list" where
  "block requester region ps =
     map (\<lambda>p. if p_id p = requester
               then (case region of None \<Rightarrow> p\<lparr>p_state := Blocked\<rparr>
                     | Some r \<Rightarrow> p\<lparr>p_state := Blocked, waitingFor := Some r\<rparr>)
               else p) ps"

text \<open>The load of a connection as the code reads it: an absent \<^verbatim>\<open>currentLoad\<close> counts as 0.\<close>

definition load :: "Connection \<Rightarrow> int" where
  "load c = num_or (currentLoad c) 0"

definition queue_ok :: "Connection \<Rightarrow> bool" where
  "queue_ok c =
     (c_type c = Queue \<longrightarrow> (\<exists>k. capacity c = Some k \<and> 0 < k \<and> 0 \<le> load c \<and> load c \<le> k))"

definition semaphore_ok :: "Semaphore \<Rightarrow> bool" where
  "semaphore_ok m =
     ((hasWriter m \<longrightarrow> currentReaders m = 0) \<and> (0 < currentReaders m \<longrightarrow> \<not> hasWriter m) \<and>
      0 \<le> currentReaders m \<and> currentReaders m \<le> maxReaders m)"

text \<open>
  Every connection record that carries a region carries a sound semaphore, and the records
  that carry the same region carry the same semaphore.
\<close>

definition regions_ok :: "Connection list \<Rightarrow> bool" where
  "regions_ok cs =
     ((\<forall>c\<in>set cs. \<forall>r. memoryRegion c = Some r \<longrightarrow> semaphore_ok (semaphore r)) \<and>
      (\<forall>c\<in>set cs. \<forall>c'\<in>set cs. \<forall>r r'.
          memoryRegion c = Some r \<and> memoryRegion c' = Some r' \<and> region_id r = region_id r' \<longrightarrow>
          semaphore r = semaphore r'))"

text \<open>
  A replacement that leaves every region record as the snapshot has it, makes no process
  wait for anything new and blocks no process that was not blocked.
\<close>

fun quiet :: "canvas \<Rightarrow> cell_write \<Rightarrow> bool" where
  "quiet s (SetConnections cs) = (map memoryRegion cs = map memoryRegion (connections s))"
| "quiet s (SetProcesses ps) =
     (map waitingFor ps = map waitingFor (processes s) \<and>
      list_all2 (\<lambda>p' p. p_state p' = Blocked \<longrightarrow> p_state p = Blocked) ps (processes s))"
| "quiet s (SetDataTransfers ts) = True"

text \<open>Sends in a row, each on the canvas the one before left: the outcomes and the canvas.\<close>

fun sends :: "inputs list \<Rightarrow> ident \<Rightarrow> ident \<Rightarrow> canvas \<Rightarrow> outcome list \<times> canvas" where
  "sends [] f t s = ([], s)"
| "sends (io # ios) f t s =
     (outcome (sendData io f t s) # fst (sends ios f t (after (sendData io f t s) s)),
      snd (sends ios f t (after (sendData io f t s) s)))"



text \<open>The first queue of the producer and consumer demonstration, in a given state and load.\<close>

definition demo_queue :: "ident \<Rightarrow> ident \<Rightarrow> ident \<Rightarrow> ConnectionState \<Rightarrow> int \<Rightarrow> Connection" where
  "demo_queue k P B st n =
     (demoConnection Queue (Some 5) k P B)\<lparr>c_state := st, currentLoad := Some n\<rparr>"

text \<open>
  The process list with the holder released, and whether some process is blocked on a region.
\<close>

definition released :: "ident \<Rightarrow> ident \<Rightarrow> Process list \<Rightarrow> Process list" where
  "released P rid ps =
     map (\<lambda>p. if p_id p = P
               then p\<lparr>p_state := Idle, resources := removeAll rid (resources p),
                      memoryAccess := None\<rparr>
               else p) ps"

definition waiting_blocked :: "MemoryRegion \<Rightarrow> Process list \<Rightarrow> bool" where
  "waiting_blocked R ps = (\<exists>p\<in>set ps. p_state p = Blocked \<and> waitingFor p = Some (region_id R))"

subsection \<open>Canvases and inputs for the examples\<close>

definition mk_inputs :: "bool \<Rightarrow> ident \<Rightarrow> inputs" where
  "mk_inputs b r =
     \<lparr>blockRoll = b, newResource = r, newReadResource = ''read-'' @ r,
       newTransfer = ''transfer-'' @ r, now = 0, packetSize = 1\<rparr>"

definition activate :: "Connection \<Rightarrow> Connection" where
  "activate c = c\<lparr>c_state := ConnActive\<rparr>"

text \<open>The deadlock demonstration with its three connections marked active.\<close>

definition deadlock_demo_active :: canvas where
  "deadlock_demo_active =
     \<lparr>processes = processes (createDeadlockDemoSimulation ''A'' ''B'' ''C'' ''c1'' ''c2'' ''c3''),
       connections = map activate
         (connections (createDeadlockDemoSimulation ''A'' ''B'' ''C'' ''c1'' ''c2'' ''c3'')),
       dataTransfers = []\<rparr>"

text \<open>The same cycle with a fourth process that no connection touches.\<close>

definition cycle_with_bystander :: canvas where
  "cycle_with_bystander =
     deadlock_demo_active\<lparr>processes :=
       processes deadlock_demo_active @ [mkProcess ''D'' ''Process 4'' (100, 100)]\<rparr>"

text \<open>Two processes and one active pipe between them: everyone is busy, nothing is circular.\<close>

definition busy_pair :: canvas where
  "busy_pair =
     \<lparr>processes = [mkProcess ''A'' ''Process 1'' (100, 100), mkProcess ''B'' ''Process 2'' (300, 100)],
       connections = [activate (demoConnection Pipe None ''c1'' ''A'' ''B'')],
       dataTransfers = []\<rparr>"

text \<open>A producer and a buffer alone, joined by a queue of capacity 5.\<close>

definition lone_queue :: canvas where
  "lone_queue =
     \<lparr>processes = [mkProcess ''producer'' ''Producer'' (200, 200),
                    mkProcess ''buffer'' ''Buffer'' (350, 350)],
       connections = [demoConnection Queue (Some 5) ''q1'' ''producer'' ''buffer''],
       dataTransfers = []\<rparr>"

text \<open>
  Two processes and a third waiting, with a memory connection whose region has the given
  semaphore; the third process is in the given state and waits for the region.
\<close>

definition shared_region :: "Semaphore \<Rightarrow> MemoryRegion" where
  "shared_region m = \<lparr>region_id = ''R'', semaphore = m\<rparr>"

definition memory_canvas :: "Semaphore \<Rightarrow> ProcessState \<Rightarrow> ProcessState \<Rightarrow> canvas" where
  "memory_canvas m holder waiter =
     \<lparr>processes = [(mkProcess ''P'' ''Process 1'' (100, 100))\<lparr>p_state := holder\<rparr>,
                    mkProcess ''Q'' ''Process 2'' (300, 100),
                    (mkProcess ''W'' ''Process 3'' (200, 300))
                      \<lparr>p_state := waiter, waitingFor := Some ''R''\<rparr>],
       connections = [(demoConnection Memory None ''m1'' ''P'' ''Q'')
                        \<lparr>memoryRegion := Some (shared_region m)\<rparr>],
       dataTransfers = []\<rparr>"

definition free_semaphore :: Semaphore where
  "free_semaphore = \<lparr>maxReaders = 5, currentReaders = 0, hasWriter = False\<rparr>"

text \<open>The memory connection of \<open>memory_canvas free_semaphore\<close>.\<close>

definition memory_link :: Connection where
  "memory_link =
     (demoConnection Memory None ''m1'' ''P'' ''Q'')
       \<lparr>memoryRegion := Some (shared_region free_semaphore)\<rparr>"










section \<open>The search ends\<close>

lemma set_set_add [simp]: "set (set_add x xs) = insert x (set xs)"
  by (auto simp: set_add_def)

lemma visited_mono_dom:
  "findCycles_visitNeighbors_dom (Inl (ac, g, n, path, cp, s)) \<Longrightarrow>
     set (visited s) \<subseteq> set (visited (findCycles ac g n path cp s))"
  "findCycles_visitNeighbors_dom (Inr (ac, g, n, nbs, path, cp, s)) \<Longrightarrow>
     set (visited s) \<subseteq> set (visited (visitNeighbors ac g n nbs path cp s))"
proof (induct rule: findCycles_visitNeighbors.pinduct)
  case (1 ac g nodeId path connPath s)
  then show ?case
    by (auto simp: findCycles.psimps Let_def)
next
  case (2 ac g nodeId path connPath s)
  then show ?case by (simp add: visitNeighbors.psimps)
next
  case (3 ac g nodeId neighbor rest path connPath s)
  then show ?case
    by (auto simp: visitNeighbors.psimps split: option.splits)
qed

text \<open>
  The search ends because every call that recurses marks a key of the graph that was not
  marked, and a node that is not a key has no neighbours.
\<close>

definition dfs_measure ::
  "(Connection list \<times> graph \<times> ident \<times> ident list \<times> ident list \<times> dfs_state) +
   (Connection list \<times> graph \<times> ident \<times> ident list \<times> ident list \<times> ident list \<times> dfs_state)
   \<Rightarrow> nat \<times> nat \<times> nat" where
  "dfs_measure x =
     (case x of
        Inl (ac, g, n, path, cp, s) \<Rightarrow> (card (fst ` set g - set (visited s)), 2, 0)
      | Inr (ac, g, n, nbs, path, cp, s) \<Rightarrow>
          (card (fst ` set g - set (visited s)), if nbs = [] then 0 else 3, length nbs))"

lemma neighbors_not_key: "n \<notin> fst ` set g \<Longrightarrow> neighbors g n = []"
  by (auto simp: neighbors_def split: option.splits dest: map_of_SomeD intro: rev_image_eqI)

lemma card_unvisited_less:
  "n \<in> fst ` set g \<Longrightarrow> n \<notin> set vs \<Longrightarrow>
     card (fst ` set g - insert n (set vs)) < card (fst ` set g - set vs)"
  by (rule psubset_card_mono) auto

lemma card_unvisited_le:
  "set vs \<subseteq> set vs' \<Longrightarrow> card (fst ` set g - set vs') \<le> card (fst ` set g - set vs)"
  by (rule card_mono) auto

termination findCycles
proof (relation "inv_image (less_than <*lex*> less_than <*lex*> less_than) dfs_measure",
    goal_cases)
  case 1
  show ?case by (intro wf_inv_image wf_lex_prod wf_less_than)
next
  case (2 ac g nodeId path connPath s x)
  show ?case
  proof (cases "nodeId \<in> fst ` set g")
    case True
    with 2 show ?thesis
      using card_unvisited_less [of nodeId g "visited s"]
      by (simp add: dfs_measure_def)
  next
    case False
    with 2 show ?thesis
      by (simp add: dfs_measure_def neighbors_not_key)
  qed
next
  case (3 ac g nodeId neighbor rest path connPath s x2)
  show ?case by (simp add: dfs_measure_def)
next
  case (4 ac g nodeId neighbor rest path connPath s)
  show ?case
  proof (cases "find (\<lambda>c. c_from c = nodeId \<and> c_to c = neighbor) ac")
    case None
    then show ?thesis by (simp add: dfs_measure_def)
  next
    case (Some conn)
    with 4 have "findCycles_visitNeighbors_dom
        (Inl (ac, g, neighbor, path @ [nodeId], connPath @ [c_id conn], s))"
      by simp
    from visited_mono_dom(1) [OF this]
    have "card (fst ` set g - set (visited (findCycles ac g neighbor (path @ [nodeId])
              (connPath @ [c_id conn]) s))) \<le> card (fst ` set g - set (visited s))"
      by (rule card_unvisited_le)
    with Some show ?thesis
      by (auto simp: dfs_measure_def)
  qed
qed

section \<open>Cycle detection finds a cycle and reports only cycles\<close>

declare findCycles.simps [simp del]

lemma recursionStack_preserved:
  "set (recursionStack (findCycles ac g n path cp s)) = set (recursionStack s)"
  "set (recursionStack (visitNeighbors ac g n nbs path cp s)) = set (recursionStack s)"
proof (induct ac g n path cp s and ac g n nbs path cp s rule: findCycles_visitNeighbors.induct)
  case (1 ac g nodeId path connPath s)
  then show ?case
    by (auto simp: findCycles.simps [of ac g nodeId path connPath s] Let_def)
next
  case (2 ac g nodeId path connPath s)
  then show ?case by simp
next
  case (3 ac g nodeId neighbor rest path connPath s)
  then show ?case by (auto split: option.splits)
qed

lemma visited_mono:
  "set (visited s) \<subseteq> set (visited (findCycles ac g n path cp s))"
  "set (visited s) \<subseteq> set (visited (visitNeighbors ac g n nbs path cp s))"
proof (induct ac g n path cp s and ac g n nbs path cp s rule: findCycles_visitNeighbors.induct)
  case (1 ac g nodeId path connPath s)
  then show ?case
    by (auto simp: findCycles.simps [of ac g nodeId path connPath s] Let_def)
next
  case (2 ac g nodeId path connPath s)
  then show ?case by simp
next
  case (3 ac g nodeId neighbor rest path connPath s)
  then show ?case by (auto split: option.splits)
qed

lemma cycles_mono:
  "length (cycles s) \<le> length (cycles (findCycles ac g n path cp s))"
  "length (cycles s) \<le> length (cycles (visitNeighbors ac g n nbs path cp s))"
proof (induct ac g n path cp s and ac g n nbs path cp s rule: findCycles_visitNeighbors.induct)
  case (1 ac g nodeId path connPath s)
  then show ?case
    by (auto simp: findCycles.simps [of ac g nodeId path connPath s] Let_def)
next
  case (2 ac g nodeId path connPath s)
  then show ?case by simp
next
  case (3 ac g nodeId neighbor rest path connPath s)
  then show ?case by (auto split: option.splits intro: order_trans)
qed

lemma indexOf_mem:
  "x \<in> set xs \<Longrightarrow>
     0 \<le> indexOf xs x \<and> nat (indexOf xs x) < length xs \<and> xs ! nat (indexOf xs x) = x"
  by (induction xs) (auto simp: Let_def nat_add_distrib)

lemma walk_length: "walk ac ps cs \<Longrightarrow> length ps = Suc (length cs)"
  by (induction ac ps cs rule: walk.induct) auto

lemma walk_snoc:
  "walk ac ps cs \<Longrightarrow> \<exists>conn\<in>set ac. c_id conn = c \<and> c_from conn = last ps \<and> c_to conn = q \<Longrightarrow>
     walk ac (ps @ [q]) (cs @ [c])"
  by (induction ac ps cs rule: walk.induct) auto

lemma walk_drop: "walk ac ps cs \<Longrightarrow> k \<le> length cs \<Longrightarrow> walk ac (drop k ps) (drop k cs)"
proof (induction k arbitrary: ps cs)
  case 0
  then show ?case by simp
next
  case (Suc k)
  from Suc.prems obtain c cs' where cs: "cs = c # cs'" by (cases cs) auto
  with Suc.prems obtain p q ps' where ps: "ps = p # q # ps'"
    by (cases ps; cases "tl ps") auto
  with cs Suc.prems have "walk ac (q # ps') cs'" and "k \<le> length cs'" by auto
  from Suc.IH [OF this] show ?case by (simp add: cs ps)
qed

lemma emitted_good:
  assumes w: "walk ac (path @ [n]) cp" and d: "distinct path" and n: "n \<in> set path"
  shows "traces_cycle ac (slice path (indexOf path n) @ [n]) (slice cp (indexOf path n))"
proof -
  let ?k = "nat (indexOf path n)"
  from indexOf_mem [OF n] have k: "0 \<le> indexOf path n" "?k < length path" "path ! ?k = n"
    by auto
  from walk_length [OF w] have len: "length cp = length path" by simp
  have sp: "slice path (indexOf path n) = drop ?k path" and sc: "slice cp (indexOf path n) = drop ?k cp"
    using k by (simp_all add: slice_def)
  from walk_drop [OF w, of ?k] k len have "walk ac (drop ?k path @ [n]) (drop ?k cp)"
    by simp
  moreover from k len have "drop ?k cp \<noteq> []" by simp
  moreover from k have "hd (drop ?k path @ [n]) = n"
    by (simp add: hd_append hd_drop_conv_nth)
  moreover from d have "distinct (drop ?k path)" by simp
  ultimately show ?thesis
    by (simp add: traces_cycle_def sp sc)
qed

lemma find_edge:
  "find (\<lambda>c. c_from c = n \<and> c_to c = w) ac = Some conn \<Longrightarrow>
     conn \<in> set ac \<and> c_from conn = n \<and> c_to conn = w"
  by (auto simp: find_Some_iff)

lemma cycles_good:
  "walk ac (path @ [n]) cp \<Longrightarrow> distinct path \<Longrightarrow> set (recursionStack s) = set path \<Longrightarrow>
     \<forall>cyc\<in>set (cycles s). good ac cyc \<Longrightarrow>
     \<forall>cyc\<in>set (cycles (findCycles ac g n path cp s)). good ac cyc"
  "walk ac (path @ [n]) cp \<Longrightarrow> distinct (path @ [n]) \<Longrightarrow>
     set (recursionStack s) = set (path @ [n]) \<Longrightarrow>
     \<forall>cyc\<in>set (cycles s). good ac cyc \<Longrightarrow>
     \<forall>cyc\<in>set (cycles (visitNeighbors ac g n nbs path cp s)). good ac cyc"
proof (induct ac g n path cp s and ac g n nbs path cp s rule: findCycles_visitNeighbors.induct)
  case (1 ac g nodeId path connPath s)
  show ?case
  proof (cases "nodeId \<in> set (recursionStack s)")
    case True
    with 1(3,4) have "nodeId \<in> set path" by simp
    from emitted_good [OF 1(2,3) this] True 1(5) show ?thesis
      by (simp add: findCycles.simps [of ac g nodeId path connPath s] Let_def good_def)
  next
    case False
    show ?thesis
    proof (cases "nodeId \<in> set (visited s)")
      case True
      with False 1(5) show ?thesis
        by (simp add: findCycles.simps [of ac g nodeId path connPath s])
    next
      case nv: False
      let ?s1 = "s\<lparr>visited := set_add nodeId (visited s),
                    recursionStack := set_add nodeId (recursionStack s)\<rparr>"
      have "\<forall>cyc\<in>set (cycles (visitNeighbors ac g nodeId (neighbors g nodeId) path connPath ?s1)).
              good ac cyc"
        using False nv 1(2-5) by (intro 1(1)) auto
      with False nv show ?thesis
        by (simp add: findCycles.simps [of ac g nodeId path connPath s] Let_def)
    qed
  qed
next
  case (2 ac g nodeId path connPath s)
  then show ?case by simp
next
  case (3 ac g nodeId neighbor rest path connPath s)
  show ?case
  proof (cases "find (\<lambda>c. c_from c = nodeId \<and> c_to c = neighbor) ac")
    case None
    with 3(2) [OF 3(3,4)] 3(5,6) show ?thesis by simp
  next
    case (Some conn)
    let ?mid = "findCycles ac g neighbor (path @ [nodeId]) (connPath @ [c_id conn]) s"
    from find_edge [OF Some] 3(3)
    have w: "walk ac ((path @ [nodeId]) @ [neighbor]) (connPath @ [c_id conn])"
      by (intro walk_snoc) auto
    have "\<forall>cyc\<in>set (cycles ?mid). good ac cyc"
      using 3(1) [OF Some w 3(4,5,6)] .
    moreover have "set (recursionStack ?mid) = set (path @ [nodeId])"
      using 3(5) by (simp add: recursionStack_preserved)
    ultimately have "\<forall>cyc\<in>set (cycles (visitNeighbors ac g nodeId rest path connPath ?mid)).
        good ac cyc"
      using 3(2) [OF 3(3,4)] Some by simp
    with Some show ?thesis by simp
  qed
qed

lemma succ_closed_rtrancl:
  "(v, w) \<in> (edges ac)\<^sup>* \<Longrightarrow> succ_closed ac C \<Longrightarrow> v \<in> C \<Longrightarrow> w \<in> C"
  by (induction rule: rtrancl_induct) (auto simp: succ_closed_def)

lemma no_cycle_through:
  assumes "succ_closed ac C" and "n \<notin> C" and "\<forall>w. (n, w) \<in> edges ac \<longrightarrow> w \<in> C"
  shows "(n, n) \<notin> (edges ac)\<^sup>+"
proof
  assume "(n, n) \<in> (edges ac)\<^sup>+"
  then obtain z where "(n, z) \<in> edges ac" and "(z, n) \<in> (edges ac)\<^sup>*"
    by (auto dest: tranclD)
  with assms have "n \<in> C" by (auto intro: succ_closed_rtrancl)
  with assms show False by simp
qed

lemma find_edge_ex:
  "(n, w) \<in> edges ac \<Longrightarrow> \<exists>conn. find (\<lambda>c. c_from c = n \<and> c_to c = w) ac = Some conn"
  by (cases "find (\<lambda>c. c_from c = n \<and> c_to c = w) ac") (auto simp: find_None_iff edges_def)

lemma finished_push:
  "n \<notin> set (visited s) \<Longrightarrow>
     finished (s\<lparr>visited := set_add n (visited s),
                 recursionStack := set_add n (recursionStack s)\<rparr>) = finished s"
  by (auto simp: finished_def)

lemma finished_pop:
  "n \<in> set (visited s) \<Longrightarrow>
     finished (s\<lparr>recursionStack := removeAll n (recursionStack s)\<rparr>) = insert n (finished s)"
  by (auto simp: finished_def)

lemma dfs_complete:
  "dfs_inv ac s \<Longrightarrow> \<forall>v w. (v, w) \<in> edges ac \<longrightarrow> w \<in> set (neighbors g v) \<Longrightarrow>
     length (cycles (findCycles ac g n path cp s)) = length (cycles s) \<Longrightarrow>
     dfs_inv ac (findCycles ac g n path cp s) \<and>
     finished s \<subseteq> finished (findCycles ac g n path cp s) \<and>
     n \<in> finished (findCycles ac g n path cp s)"
  "dfs_inv ac s \<Longrightarrow> \<forall>v w. (v, w) \<in> edges ac \<longrightarrow> w \<in> set (neighbors g v) \<Longrightarrow>
     n \<in> set (recursionStack s) \<Longrightarrow>
     length (cycles (visitNeighbors ac g n nbs path cp s)) = length (cycles s) \<Longrightarrow>
     dfs_inv ac (visitNeighbors ac g n nbs path cp s) \<and>
     finished s \<subseteq> finished (visitNeighbors ac g n nbs path cp s) \<and>
     (\<forall>w\<in>set nbs. (n, w) \<in> edges ac \<longrightarrow> w \<in> finished (visitNeighbors ac g n nbs path cp s))"
proof (induct ac g n path cp s and ac g n nbs path cp s rule: findCycles_visitNeighbors.induct)
  case (1 ac g nodeId path connPath s)
  show ?case
  proof (cases "nodeId \<in> set (recursionStack s)")
    case True
    with 1(4) show ?thesis
      by (simp add: findCycles.simps [of ac g nodeId path connPath s] Let_def)
  next
    case False
    show ?thesis
    proof (cases "nodeId \<in> set (visited s)")
      case True
      with False 1(2) show ?thesis
        by (simp add: findCycles.simps [of ac g nodeId path connPath s] finished_def)
    next
      case nv: False
      let ?s1 = "s\<lparr>visited := set_add nodeId (visited s),
                    recursionStack := set_add nodeId (recursionStack s)\<rparr>"
      let ?s2 = "visitNeighbors ac g nodeId (neighbors g nodeId) path connPath ?s1"
      have res: "findCycles ac g nodeId path connPath s =
          ?s2\<lparr>recursionStack := removeAll nodeId (recursionStack ?s2)\<rparr>"
        using False nv by (simp add: findCycles.simps [of ac g nodeId path connPath s] Let_def)
      have f1: "finished ?s1 = finished s" using nv by (rule finished_push)
      then have inv1: "dfs_inv ac ?s1" using 1(2) by (simp add: dfs_inv_def)
      have len: "length (cycles ?s2) = length (cycles ?s1)"
        using 1(4) by (simp add: res)
      have on: "nodeId \<in> set (recursionStack ?s1)" by simp
      from 1(1) [OF False nv refl inv1 1(3) on len]
      have inv2: "dfs_inv ac ?s2" and sub: "finished ?s1 \<subseteq> finished ?s2"
        and nb: "\<forall>w\<in>set (neighbors g nodeId). (nodeId, w) \<in> edges ac \<longrightarrow> w \<in> finished ?s2"
        by auto
      have nin: "nodeId \<notin> finished ?s2"
        by (simp add: finished_def recursionStack_preserved)
      have vis: "nodeId \<in> set (visited ?s2)"
        using visited_mono(2) [of ?s1 ac g nodeId "neighbors g nodeId" path connPath] by auto
      have fin: "finished (findCycles ac g nodeId path connPath s) = insert nodeId (finished ?s2)"
        unfolding res using vis by (rule finished_pop)
      have succs: "\<forall>w. (nodeId, w) \<in> edges ac \<longrightarrow> w \<in> finished ?s2"
        using nb 1(3) by blast
      have "succ_closed ac (insert nodeId (finished ?s2))"
        using inv2 succs by (auto simp: dfs_inv_def succ_closed_def)
      moreover have "(nodeId, nodeId) \<notin> (edges ac)\<^sup>+"
        using inv2 nin succs by (intro no_cycle_through [of ac "finished ?s2"]) (auto simp: dfs_inv_def)
      ultimately have "dfs_inv ac (findCycles ac g nodeId path connPath s)"
        using inv2 by (auto simp: dfs_inv_def fin)
      with sub f1 fin show ?thesis by auto
    qed
  qed
next
  case (2 ac g nodeId path connPath s)
  then show ?case by simp
next
  case (3 ac g nodeId neighbor rest path connPath s)
  show ?case
  proof (cases "find (\<lambda>c. c_from c = nodeId \<and> c_to c = neighbor) ac")
    case None
    then have "(nodeId, neighbor) \<notin> edges ac"
      using find_edge_ex [of nodeId neighbor ac] by auto
    with 3(2) [OF _ 3(4)] 3(3,5,6) None show ?thesis by simp
  next
    case (Some conn)
    let ?mid = "findCycles ac g neighbor (path @ [nodeId]) (connPath @ [c_id conn]) s"
    let ?res = "visitNeighbors ac g nodeId rest path connPath ?mid"
    have res: "visitNeighbors ac g nodeId (neighbor # rest) path connPath s = ?res"
      using Some by simp
    have "length (cycles s) \<le> length (cycles ?mid)" "length (cycles ?mid) \<le> length (cycles ?res)"
      by (rule cycles_mono)+
    with 3(6) res have l1: "length (cycles ?mid) = length (cycles s)"
      and l2: "length (cycles ?res) = length (cycles ?mid)" by auto
    from 3(1) [OF Some 3(3,4) l1]
    have inv1: "dfs_inv ac ?mid" and sub1: "finished s \<subseteq> finished ?mid"
      and nb1: "neighbor \<in> finished ?mid" by auto
    have on: "nodeId \<in> set (recursionStack ?mid)"
      using 3(5) by (simp add: recursionStack_preserved)
    from 3(2) [OF _ 3(4)] Some inv1 on l2
    have inv2: "dfs_inv ac ?res" and sub2: "finished ?mid \<subseteq> finished ?res"
      and nb2: "\<forall>w\<in>set rest. (nodeId, w) \<in> edges ac \<longrightarrow> w \<in> finished ?res"
      by auto
    from inv2 sub1 sub2 nb1 nb2 show ?thesis
      unfolding res by auto
  qed
qed

lemma neighbors_update:
  "neighbors (AList.update k v g) n = (if n = k then v else neighbors g n)"
  by (simp add: neighbors_def update_conv')

lemma neighbors_add_edge:
  "neighbors (add_edge conn g) n =
     neighbors g n @ (if c_from conn = n then [c_to conn] else [])"
  by (auto simp: add_edge_def Let_def neighbors_def update_conv' split: option.splits)

lemma keys_add_edge: "fst ` set (add_edge conn g) = insert (c_from conn) (fst ` set g)"
  by (auto simp: add_edge_def Let_def dom_update)

lemma neighbors_fold_add_edge:
  "neighbors (fold add_edge ac g) n = neighbors g n @ map c_to (filter (\<lambda>c. c_from c = n) ac)"
  by (induction ac arbitrary: g) (auto simp: neighbors_add_edge)

lemma keys_fold_add_edge: "fst ` set (fold add_edge ac g) = c_from ` set ac \<union> fst ` set g"
  by (induction ac arbitrary: g) (auto simp: keys_add_edge)

lemma neighbors_init:
  "\<forall>n. neighbors g n = [] \<Longrightarrow> neighbors (fold (\<lambda>p g. AList.update (p_id p) [] g) ps g) n = []"
  by (induction ps arbitrary: g) (auto simp: neighbors_update)

lemma neighbors_buildGraph:
  "neighbors (buildGraph ps ac) n = map c_to (filter (\<lambda>c. c_from c = n) ac)"
proof -
  have "\<forall>n. neighbors [] n = []" by (simp add: neighbors_def)
  then show ?thesis
    by (simp add: buildGraph_def neighbors_fold_add_edge neighbors_init)
qed

lemma keys_buildGraph: "c_from ` set ac \<subseteq> fst ` set (buildGraph ps ac)"
  by (simp add: buildGraph_def keys_fold_add_edge)

lemma set_object_keys: "set (object_keys g) = fst ` set g"
  by (auto simp: object_keys_def Let_def)

lemma edges_neighbors_buildGraph:
  "(v, w) \<in> edges ac \<Longrightarrow> w \<in> set (neighbors (buildGraph ps ac) v)"
  by (auto simp: neighbors_buildGraph edges_def)

lemma scan_simps:
  "scan ac g [] s = s"
  "scan ac g (k # ks) s = scan ac g ks (findCycles ac g k [] [] s)"
  by (simp_all add: scan_def)

lemma scan_good:
  "set (recursionStack s) = {} \<Longrightarrow> \<forall>cyc\<in>set (cycles s). good ac cyc \<Longrightarrow>
     \<forall>cyc\<in>set (cycles (scan ac g ks s)). good ac cyc"
proof (induction ks arbitrary: s)
  case Nil
  then show ?case by (simp add: scan_simps)
next
  case (Cons k ks)
  have "\<forall>cyc\<in>set (cycles (findCycles ac g k [] [] s)). good ac cyc"
    using Cons.prems by (intro cycles_good(1)) auto
  moreover have "set (recursionStack (findCycles ac g k [] [] s)) = {}"
    using Cons.prems by (simp add: recursionStack_preserved)
  ultimately show ?case
    using Cons.IH by (simp add: scan_simps)
qed

lemma scan_cycles_mono: "length (cycles s) \<le> length (cycles (scan ac g ks s))"
proof (induction ks arbitrary: s)
  case Nil
  then show ?case by (simp add: scan_simps)
next
  case (Cons k ks)
  have "length (cycles s) \<le> length (cycles (findCycles ac g k [] [] s))"
    by (rule cycles_mono)
  also have "\<dots> \<le> length (cycles (scan ac g ks (findCycles ac g k [] [] s)))"
    by (rule Cons.IH)
  finally show ?case by (simp add: scan_simps)
qed

lemma scan_complete:
  "dfs_inv ac s \<Longrightarrow> \<forall>v w. (v, w) \<in> edges ac \<longrightarrow> w \<in> set (neighbors g v) \<Longrightarrow>
     length (cycles (scan ac g ks s)) = length (cycles s) \<Longrightarrow>
     dfs_inv ac (scan ac g ks s) \<and> finished s \<subseteq> finished (scan ac g ks s) \<and>
     set ks \<subseteq> finished (scan ac g ks s)"
proof (induction ks arbitrary: s)
  case Nil
  then show ?case by (simp add: scan_simps)
next
  case (Cons k ks)
  let ?mid = "findCycles ac g k [] [] s"
  have "length (cycles s) \<le> length (cycles ?mid)"
    "length (cycles ?mid) \<le> length (cycles (scan ac g ks ?mid))"
    by (rule cycles_mono, rule scan_cycles_mono)
  with Cons.prems(3) have l1: "length (cycles ?mid) = length (cycles s)"
    and l2: "length (cycles (scan ac g ks ?mid)) = length (cycles ?mid)"
    by (auto simp: scan_simps)
  from dfs_complete(1) [OF Cons.prems(1,2) l1]
  have inv1: "dfs_inv ac ?mid" and sub1: "finished s \<subseteq> finished ?mid" and k: "k \<in> finished ?mid"
    by auto
  from Cons.IH [OF inv1 Cons.prems(2) l2] sub1 k show ?case
    by (auto simp: scan_simps)
qed

lemma walk_trancl: "walk ac ps cs \<Longrightarrow> cs \<noteq> [] \<Longrightarrow> (hd ps, last ps) \<in> (edges ac)\<^sup>+"
proof (induction ac ps cs rule: walk.induct)
  case (2 ac p q ps c cs)
  then have e: "(p, q) \<in> edges ac" by (auto simp: edges_def)
  show ?case
  proof (cases cs)
    case Nil
    with 2 have "ps = []" by (cases ps) auto
    with e show ?thesis by auto
  next
    case (Cons c' cs')
    with 2 have "(q, last (q # ps)) \<in> (edges ac)\<^sup>+" by simp
    with e have "(p, last (q # ps)) \<in> (edges ac)\<^sup>+" by (rule trancl_into_trancl2)
    then show ?thesis by simp
  qed
qed auto

lemma detect_nonempty:
  assumes "has_cycle (filter (\<lambda>c. c_state c = ConnActive) cs)"
  shows "detectDeadlockCycles ps cs \<noteq> []"
proof
  let ?ac = "filter (\<lambda>c. c_state c = ConnActive) cs"
  let ?g = "buildGraph ps ?ac"
  let ?fin = "scan ?ac ?g (object_keys ?g) dfs_init"
  assume "detectDeadlockCycles ps cs = []"
  then have len: "length (cycles ?fin) = length (cycles dfs_init)"
    by (simp add: detectDeadlockCycles_def scan_def Let_def dfs_init_def)
  have "dfs_inv ?ac dfs_init"
    by (simp add: dfs_inv_def succ_closed_def finished_def dfs_init_def)
  moreover have "\<forall>v w. (v, w) \<in> edges ?ac \<longrightarrow> w \<in> set (neighbors ?g v)"
    by (blast intro: edges_neighbors_buildGraph)
  ultimately have inv: "dfs_inv ?ac ?fin" and keys: "set (object_keys ?g) \<subseteq> finished ?fin"
    using scan_complete [OF _ _ len] by blast+
  from assms obtain qs ds where w: "walk ?ac qs ds" "ds \<noteq> []" "hd qs = last qs"
    unfolding has_cycle_def by blast
  then have loop: "(hd qs, hd qs) \<in> (edges ?ac)\<^sup>+"
    using walk_trancl [of ?ac qs ds] by simp
  then obtain z where "(hd qs, z) \<in> edges ?ac" by (auto dest: tranclD)
  then have "hd qs \<in> c_from ` set ?ac" by (auto simp: edges_def)
  with keys_buildGraph [of ?ac ps] keys have "hd qs \<in> finished ?fin"
    by (auto simp: set_object_keys)
  with inv loop show False by (auto simp: dfs_inv_def)
qed

lemma detect_good:
  "\<forall>cyc\<in>set (detectDeadlockCycles ps cs). good (filter (\<lambda>c. c_state c = ConnActive) cs) cyc"
proof -
  have "\<forall>cyc\<in>set (cycles (scan (filter (\<lambda>c. c_state c = ConnActive) cs)
      (buildGraph ps (filter (\<lambda>c. c_state c = ConnActive) cs))
      (object_keys (buildGraph ps (filter (\<lambda>c. c_state c = ConnActive) cs))) dfs_init)).
        good (filter (\<lambda>c. c_state c = ConnActive) cs) cyc"
    by (rule scan_good) (simp_all add: dfs_init_def)
  then show ?thesis
    by (simp add: detectDeadlockCycles_def scan_def Let_def)
qed

lemma walk_step:
  "walk ac (p # ps) cs \<Longrightarrow> cs \<noteq> [] \<Longrightarrow>
     \<exists>q ps' c cs' conn. ps = q # ps' \<and> cs = c # cs' \<and> conn \<in> set ac \<and> c_id conn = c \<and>
        c_from conn = p \<and> c_to conn = q \<and> walk ac (q # ps') cs'"
  by (cases ps; cases cs) auto

lemma walk_end: "walk ac (p # ps) [] \<Longrightarrow> ps = []"
  by (cases ps) auto

lemma three_cycle_rot: "three_cycle ac c1 c2 c3 \<Longrightarrow> three_cycle ac c2 c3 c1"
  by (auto simp: three_cycle_def)

lemma three_cycle_out:
  "three_cycle ac c1 c2 c3 \<Longrightarrow> conn \<in> set ac \<Longrightarrow> c_from conn = c_from c1 \<Longrightarrow> conn = c1"
  by (auto simp: three_cycle_def)

lemma three_cycle_lap:
  assumes t: "three_cycle ac c1 c2 c3" and c: "traces_cycle ac ps cs" and h: "hd ps = c_from c1"
  shows "(ps, cs) = lap c1 c2 c3"
proof -
  from c have w: "walk ac ps cs" and ne: "cs \<noteq> []" and cl: "hd ps = last ps"
    and d: "distinct (butlast ps)" by (auto simp: traces_cycle_def)
  from w ne obtain p ps0 where ps: "ps = p # ps0" by (cases ps) auto
  with h have p: "p = c_from c1" by simp
  from t have t2: "three_cycle ac c2 c3 c1" by (rule three_cycle_rot)
  then have t3: "three_cycle ac c3 c1 c2" by (rule three_cycle_rot)
  from t have ds: "c_from c1 \<noteq> c_from c2" "c_from c1 \<noteq> c_from c3" "c_from c2 \<noteq> c_from c3"
    and to: "c_to c1 = c_from c2" "c_to c2 = c_from c3" "c_to c3 = c_from c1"
    by (auto simp: three_cycle_def)
  from walk_step [OF w [unfolded ps] ne] obtain q1 ps1 d1 cs1 k1 where
    s1: "ps0 = q1 # ps1" "cs = d1 # cs1" "k1 \<in> set ac" "c_id k1 = d1" "c_from k1 = p"
      "c_to k1 = q1" "walk ac (q1 # ps1) cs1" by blast
  from three_cycle_out [OF t s1(3)] s1(5) p have k1: "k1 = c1" by simp
  have ne1: "cs1 \<noteq> []"
  proof
    assume "cs1 = []"
    with s1(7) have "ps1 = []" by (auto dest: walk_end)
    with cl ps s1 k1 p to ds show False by simp
  qed
  from walk_step [OF s1(7) ne1] obtain q2 ps2 d2 cs2 k2 where
    s2: "ps1 = q2 # ps2" "cs1 = d2 # cs2" "k2 \<in> set ac" "c_id k2 = d2" "c_from k2 = q1"
      "c_to k2 = q2" "walk ac (q2 # ps2) cs2" by blast
  from three_cycle_out [OF t2 s2(3)] s2(5) s1(6) k1 to have k2: "k2 = c2" by simp
  have ne2: "cs2 \<noteq> []"
  proof
    assume "cs2 = []"
    with s2(7) have "ps2 = []" by (auto dest: walk_end)
    with cl ps s1 s2 k1 k2 p to ds show False by simp
  qed
  from walk_step [OF s2(7) ne2] obtain q3 ps3 d3 cs3 k3 where
    s3: "ps2 = q3 # ps3" "cs2 = d3 # cs3" "k3 \<in> set ac" "c_id k3 = d3" "c_from k3 = q2"
      "c_to k3 = q3" "walk ac (q3 # ps3) cs3" by blast
  from three_cycle_out [OF t3 s3(3)] s3(5) s2(6) k2 to have k3: "k3 = c3" by simp
  have "cs3 = []"
  proof (rule ccontr)
    assume "cs3 \<noteq> []"
    from walk_step [OF s3(7) this] obtain q4 ps4 where "ps3 = q4 # ps4" by blast
    with d ps s1 s2 s3 k3 to p show False by simp
  qed
  moreover with s3(7) have "ps3 = []" by (auto dest: walk_end)
  ultimately show ?thesis
    using ps s1 s2 s3 k1 k2 k3 p to by (simp add: lap_def)
qed

lemma traces_cycle_start: "traces_cycle ac ps cs \<Longrightarrow> hd ps \<in> c_from ` set ac"
proof -
  assume c: "traces_cycle ac ps cs"
  then obtain p ps0 where ps: "ps = p # ps0" by (cases ps) (auto simp: traces_cycle_def)
  with c have "walk ac (p # ps0) cs" "cs \<noteq> []" by (auto simp: traces_cycle_def)
  from walk_step [OF this] ps show ?thesis by auto
qed

lemma three_cycle_laps:
  assumes t: "three_cycle ac c1 c2 c3" and c: "traces_cycle ac ps cs"
  shows "(ps, cs) \<in> {lap c1 c2 c3, lap c2 c3 c1, lap c3 c1 c2}"
proof -
  from traces_cycle_start [OF c] t
  consider "hd ps = c_from c1" | "hd ps = c_from c2" | "hd ps = c_from c3"
    by (auto simp: three_cycle_def)
  then show ?thesis
  proof cases
    case 1
    from three_cycle_lap [OF t c 1] show ?thesis by simp
  next
    case 2
    from three_cycle_lap [OF three_cycle_rot [OF t] c 2] show ?thesis by simp
  next
    case 3
    from three_cycle_lap [OF three_cycle_rot [OF three_cycle_rot [OF t]] c 3] show ?thesis by simp
  qed
qed

lemma three_cycle_has_cycle: "three_cycle ac c1 c2 c3 \<Longrightarrow> has_cycle ac"
proof -
  assume t: "three_cycle ac c1 c2 c3"
  then have "walk ac [c_from c1, c_from c2, c_from c3, c_from c1] [c_id c1, c_id c2, c_id c3]"
    by (auto simp: three_cycle_def)
  then have "walk ac [c_from c1, c_from c2, c_from c3, c_from c1] [c_id c1, c_id c2, c_id c3] \<and>
      [c_id c1, c_id c2, c_id c3] \<noteq> [] \<and>
      hd [c_from c1, c_from c2, c_from c3, c_from c1] = last [c_from c1, c_from c2, c_from c3, c_from c1]"
    by simp
  then show ?thesis
    unfolding has_cycle_def by blast
qed

text \<open>
  C1 (amended). Whenever the active connections contain a directed cycle,
  \<open>detectDeadlockCycles\<close> returns at least one record whose process list and connection list
  trace a cycle of the active connections: consecutive processes are joined by the active
  connections named, in order, the first process is repeated at the end and no other process
  occurs twice. When the active connections are exactly the three edges of a cycle through
  three different processes, a returned record is that cycle told from one of its three
  processes, with the three connection identifiers in the matching order.
\<close>

theorem detect_reports_cycle:
  "(has_cycle (active cs) \<longrightarrow>
      (\<exists>cyc\<in>set (detectDeadlockCycles ps cs).
         traces_cycle (active cs) (cyc_processes cyc) (cyc_connections cyc))) \<and>
   (three_cycle (active cs) c1 c2 c3 \<longrightarrow>
      (\<exists>cyc\<in>set (detectDeadlockCycles ps cs).
         (cyc_processes cyc, cyc_connections cyc) \<in> {lap c1 c2 c3, lap c2 c3 c1, lap c3 c1 c2}))"
proof -
  have gen: "\<exists>cyc\<in>set (detectDeadlockCycles ps cs).
         traces_cycle (active cs) (cyc_processes cyc) (cyc_connections cyc)"
    if "has_cycle (active cs)"
  proof -
    from that have "detectDeadlockCycles ps cs \<noteq> []"
      unfolding active_def by (rule detect_nonempty)
    then obtain cyc where "cyc \<in> set (detectDeadlockCycles ps cs)"
      by (cases "detectDeadlockCycles ps cs") auto
    with detect_good [of ps cs] show ?thesis
      by (auto simp: good_def active_def)
  qed
  have "\<exists>cyc\<in>set (detectDeadlockCycles ps cs).
         (cyc_processes cyc, cyc_connections cyc) \<in> {lap c1 c2 c3, lap c2 c3 c1, lap c3 c1 c2}"
    if t: "three_cycle (active cs) c1 c2 c3"
  proof -
    from gen [OF three_cycle_has_cycle [OF t]] obtain cyc where
      "cyc \<in> set (detectDeadlockCycles ps cs)"
      "traces_cycle (active cs) (cyc_processes cyc) (cyc_connections cyc)" by blast
    with three_cycle_laps [OF t] show ?thesis by blast
  qed
  with gen show ?thesis by blast
qed

theorem detect_reports_cycle_witness:
  "has_cycle (active [(demoConnection Memory None ''c1'' ''A'' ''B'')\<lparr>c_state := ConnActive\<rparr>,
       (demoConnection Memory None ''c2'' ''B'' ''C'')\<lparr>c_state := ConnActive\<rparr>,
       (demoConnection Memory None ''c3'' ''C'' ''A'')\<lparr>c_state := ConnActive\<rparr>]) \<and>
   three_cycle (active [(demoConnection Memory None ''c1'' ''A'' ''B'')\<lparr>c_state := ConnActive\<rparr>,
       (demoConnection Memory None ''c2'' ''B'' ''C'')\<lparr>c_state := ConnActive\<rparr>,
       (demoConnection Memory None ''c3'' ''C'' ''A'')\<lparr>c_state := ConnActive\<rparr>])
     ((demoConnection Memory None ''c1'' ''A'' ''B'')\<lparr>c_state := ConnActive\<rparr>)
     ((demoConnection Memory None ''c2'' ''B'' ''C'')\<lparr>c_state := ConnActive\<rparr>)
     ((demoConnection Memory None ''c3'' ''C'' ''A'')\<lparr>c_state := ConnActive\<rparr>) \<and>
   (\<exists>cyc\<in>set (detectDeadlockCycles
         [mkProcess ''A'' ''Process A'' (250, 150), mkProcess ''B'' ''Process B'' (450, 150),
          mkProcess ''C'' ''Process C'' (350, 300)]
         [(demoConnection Memory None ''c1'' ''A'' ''B'')\<lparr>c_state := ConnActive\<rparr>,
          (demoConnection Memory None ''c2'' ''B'' ''C'')\<lparr>c_state := ConnActive\<rparr>,
          (demoConnection Memory None ''c3'' ''C'' ''A'')\<lparr>c_state := ConnActive\<rparr>]).
      (cyc_processes cyc, cyc_connections cyc) \<in>
        {([''A'', ''B'', ''C'', ''A''], [''c1'', ''c2'', ''c3'']),
         ([''B'', ''C'', ''A'', ''B''], [''c2'', ''c3'', ''c1'']),
         ([''C'', ''A'', ''B'', ''C''], [''c3'', ''c1'', ''c2''])})"
proof -
  let ?k1 = "(demoConnection Memory None ''c1'' ''A'' ''B'')\<lparr>c_state := ConnActive\<rparr>"
  let ?k2 = "(demoConnection Memory None ''c2'' ''B'' ''C'')\<lparr>c_state := ConnActive\<rparr>"
  let ?k3 = "(demoConnection Memory None ''c3'' ''C'' ''A'')\<lparr>c_state := ConnActive\<rparr>"
  have t: "three_cycle (active [?k1, ?k2, ?k3]) ?k1 ?k2 ?k3"
    by (simp add: three_cycle_def active_def demoConnection_def)
  then have h: "has_cycle (active [?k1, ?k2, ?k3])"
    by (rule three_cycle_has_cycle)
  have laps: "lap ?k1 ?k2 ?k3 = ([''A'', ''B'', ''C'', ''A''], [''c1'', ''c2'', ''c3''])"
    "lap ?k2 ?k3 ?k1 = ([''B'', ''C'', ''A'', ''B''], [''c2'', ''c3'', ''c1''])"
    "lap ?k3 ?k1 ?k2 = ([''C'', ''A'', ''B'', ''C''], [''c3'', ''c1'', ''c2''])"
    by (simp_all add: lap_def demoConnection_def)
  from detect_reports_cycle [of "[?k1, ?k2, ?k3]" _ ?k1 ?k2 ?k3] t h show ?thesis
    unfolding laps by blast
qed

text \<open>
  C1 as stated fails when the scan does not start at \<open>A\<close>: with the processes listed as
  \<open>B, A, C\<close> and the active connections \<open>c1: A \<rightarrow> B\<close>, \<open>c2: B \<rightarrow> C\<close>, \<open>c3: C \<rightarrow> A\<close>, the only
  record returned is \<open>[B, C, A, B]\<close> with \<open>[c2, c3, c1]\<close>, not \<open>[A, B, C, A]\<close> with
  \<open>[c1, c2, c3]\<close>.
\<close>

theorem detect_three_cycle_starts_elsewhere:
  "detectDeadlockCycles
     [mkProcess ''B'' ''Process B'' (450, 150), mkProcess ''A'' ''Process A'' (250, 150),
      mkProcess ''C'' ''Process C'' (350, 300)]
     [(demoConnection Memory None ''c1'' ''A'' ''B'')\<lparr>c_state := ConnActive\<rparr>,
      (demoConnection Memory None ''c2'' ''B'' ''C'')\<lparr>c_state := ConnActive\<rparr>,
      (demoConnection Memory None ''c3'' ''C'' ''A'')\<lparr>c_state := ConnActive\<rparr>] =
   [\<lparr>cyc_processes = [''B'', ''C'', ''A'', ''B''], cyc_connections = [''c2'', ''c3'', ''c1''],
     resolved = False\<rparr>]"
  by code_simp

section \<open>Failed acquisitions\<close>

lemma commit_simps [simp]:
  "commit [] s = s"
  "commit (w # ws) s = commit ws (apply_write w s)"
  "commit (ws @ ws') s = commit ws' (commit ws s)"
  by (simp_all add: commit_def)

lemma send_failed:
  assumes "failed (outcome (sendData io f t s))"
  shows "case outcome (sendData io f t s) of
        MemoryLocked \<Rightarrow>
          (\<exists>region. Option.bind (resolve f t (connections s)) memory_region_of = Some region \<and>
             after (sendData io f t s) s =
               s\<lparr>processes := block f (Some (region_id region)) (processes s)\<rparr>)
      | QueueEmpty \<Rightarrow>
          after (sendData io f t s) s = s\<lparr>processes := block f None (processes s)\<rparr>
      | _ \<Rightarrow> after (sendData io f t s) s = s"
  using assms
  by (auto simp: sendData_def after_def failed_def block_def Let_def
      split: option.splits if_splits)

lemma consume_failed:
  assumes "failed (outcome (consumeData io f t s))"
  shows "case outcome (consumeData io f t s) of
        MemoryLocked \<Rightarrow>
          (\<exists>region. Option.bind (resolve f t (connections s)) memory_region_of = Some region \<and>
             after (consumeData io f t s) s =
               s\<lparr>processes := block t (Some (region_id region)) (processes s)\<rparr>)
      | QueueEmpty \<Rightarrow>
          after (consumeData io f t s) s = s\<lparr>processes := block t None (processes s)\<rparr>
      | _ \<Rightarrow> after (consumeData io f t s) s = s"
  using assms
  by (auto simp: consumeData_def consume_transfer_def after_def failed_def block_def Let_def
      split: option.splits if_splits)

text \<open>
  C3 (amended). A send or a consume that fails with QueueFull, with MaxReadersReached or for
  want of a connection leaves the whole canvas as it was. One that fails with QueueEmpty or
  MemoryLocked leaves the connections and the transfers as they were and changes the
  processes only in the records of the requester (the sender of a send, the consumer of a
  consume): its state becomes blocked and, for MemoryLocked, its \<^verbatim>\<open>waitingFor\<close> becomes the
  identifier of the region.
\<close>

theorem failed_acquisition_state:
  assumes "e = sendData io f t s \<and> requester = f \<or> e = consumeData io f t s \<and> requester = t"
    and "failed (outcome e)"
  shows "case outcome e of
        MemoryLocked \<Rightarrow>
          (\<exists>region. Option.bind (resolve f t (connections s)) memory_region_of = Some region \<and>
             after e s = s\<lparr>processes := block requester (Some (region_id region)) (processes s)\<rparr>)
      | QueueEmpty \<Rightarrow> after e s = s\<lparr>processes := block requester None (processes s)\<rparr>
      | _ \<Rightarrow> after e s = s"
  using assms send_failed [of io f t s] consume_failed [of io f t s] by auto

theorem failed_acquisition_state_witness:
  "failed (outcome (consumeData (mk_inputs False ''1'') ''producer'' ''buffer'' lone_queue)) \<and>
   after (consumeData (mk_inputs False ''1'') ''producer'' ''buffer'' lone_queue) lone_queue =
     lone_queue\<lparr>processes := block ''buffer'' None (processes lone_queue)\<rparr> \<and>
   failed (outcome (sendData (mk_inputs False ''1'') ''P'' ''Q''
     (memory_canvas (free_semaphore\<lparr>currentReaders := 1\<rparr>) Idle Idle))) \<and>
   after (sendData (mk_inputs False ''1'') ''P'' ''Q''
       (memory_canvas (free_semaphore\<lparr>currentReaders := 1\<rparr>) Idle Idle))
     (memory_canvas (free_semaphore\<lparr>currentReaders := 1\<rparr>) Idle Idle) =
     (memory_canvas (free_semaphore\<lparr>currentReaders := 1\<rparr>) Idle Idle)
       \<lparr>processes := block ''P'' (Some ''R'')
          (processes (memory_canvas (free_semaphore\<lparr>currentReaders := 1\<rparr>) Idle Idle))\<rparr>"
proof -
  let ?e1 = "consumeData (mk_inputs False ''1'') ''producer'' ''buffer'' lone_queue"
  let ?s2 = "memory_canvas (free_semaphore\<lparr>currentReaders := 1\<rparr>) Idle Idle"
  let ?e2 = "sendData (mk_inputs False ''1'') ''P'' ''Q'' ?s2"
  have o1: "outcome ?e1 = QueueEmpty"
    by (simp add: consumeData_def lone_queue_def resolve_def demoConnection_def num_or_def)
  have o2: "outcome ?e2 = MemoryLocked"
    by (simp add: sendData_def memory_canvas_def resolve_def demoConnection_def num_or_def
        memory_region_of_def shared_region_def free_semaphore_def)
  have r2: "Option.bind (resolve ''P'' ''Q'' (connections ?s2)) memory_region_of =
      Some (shared_region (free_semaphore\<lparr>currentReaders := 1\<rparr>))"
    by (simp add: memory_canvas_def resolve_def demoConnection_def memory_region_of_def)
  have f1: "failed (outcome ?e1)" and f2: "failed (outcome ?e2)"
    by (simp_all add: o1 o2 failed_def)
  from failed_acquisition_state [of ?e1 "mk_inputs False ''1''" "''producer''" "''buffer''"
      lone_queue "''buffer''", OF _ f1]
  have 1: "after ?e1 lone_queue = lone_queue\<lparr>processes := block ''buffer'' None (processes lone_queue)\<rparr>"
    by (simp add: o1)
  from failed_acquisition_state [of ?e2 "mk_inputs False ''1''" "''P''" "''Q''" ?s2 "''P''", OF _ f2]
  have 2: "after ?e2 ?s2 = ?s2\<lparr>processes := block ''P'' (Some ''R'') (processes ?s2)\<rparr>"
    by (simp add: o2 r2 shared_region_def)
  from f1 f2 1 2 show ?thesis by simp
qed

text \<open>
  C3 as stated fails on the QueueEmpty path: a consume from the empty queue of \<open>lone_queue\<close>
  fails and leaves the consumer blocked, where it was idle.
\<close>

theorem failed_consume_blocks_consumer:
  "outcome (consumeData (mk_inputs False ''1'') ''producer'' ''buffer'' lone_queue) = QueueEmpty \<and>
   map p_state (processes lone_queue) = [Idle, Idle] \<and>
   map p_state (processes
     (after (consumeData (mk_inputs False ''1'') ''producer'' ''buffer'' lone_queue) lone_queue)) =
     [Idle, Blocked]"
  by (simp add: consumeData_def lone_queue_def resolve_def demoConnection_def num_or_def
      after_def mkProcess_def)

section \<open>The queue bound\<close>

lemma resolve_mem: "resolve f t cs = Some q \<Longrightarrow> q \<in> set cs"
  by (auto simp: resolve_def find_Some_iff)

lemma same_id_same_connection:
  "distinct (map c_id cs) \<Longrightarrow> c \<in> set cs \<Longrightarrow> q \<in> set cs \<Longrightarrow> c_id c = c_id q \<Longrightarrow> c = q"
  by (auto simp: distinct_map dest: inj_onD)

lemma queue_ok_mark: "queue_ok c \<Longrightarrow> queue_ok (c\<lparr>c_state := x\<rparr>)"
  by (simp add: queue_ok_def load_def)

lemma queue_ok_inc:
  "queue_ok q \<Longrightarrow> (c_type q = Queue \<longrightarrow> load q < num_or (capacity q) 10) \<Longrightarrow>
     queue_ok (q\<lparr>c_state := ConnActive, currentLoad := Some (num_or (currentLoad q) 0 + 1)\<rparr>)"
  by (auto simp: queue_ok_def load_def num_or_def split: option.splits if_splits)

lemma queue_ok_consume:
  "queue_ok c \<Longrightarrow>
     queue_ok (c\<lparr>c_state := ConnActive, currentLoad := Some (max 0 (num_or (currentLoad c) 1 - 1))\<rparr>)"
  by (auto simp: queue_ok_def load_def num_or_def split: option.splits if_splits)

lemma queue_ok_decrement:
  "queue_ok c \<Longrightarrow> queue_ok (c\<lparr>currentLoad := Some (max 0 (num_or (currentLoad c) 0 - 1))\<rparr>)"
  by (auto simp: queue_ok_def load_def num_or_def split: option.splits if_splits)

lemma send_connections:
  "connections (after (sendData io f t s) s) =
     (case resolve f t (connections s) of
        None \<Rightarrow> connections s
      | Some q \<Rightarrow>
          if outcome (sendData io f t s) = Started then
            (if saturated s
             then map (\<lambda>c. c\<lparr>c_state := (if c_state c = ConnActive then ConnDeadlocked else c_state c)\<rparr>)
                    (connections s)
             else map (\<lambda>c. if c_id c = c_id q
                            then c\<lparr>c_state := ConnActive,
                                   currentLoad := Some (num_or (currentLoad c) 0 + 1)\<rparr>
                            else c) (connections s))
          else connections s)"
  by (auto simp: sendData_def after_def Let_def checkForDeadlocks_def
      split: option.splits if_splits)

lemma send_started_room:
  "resolve f t (connections s) = Some q \<Longrightarrow> outcome (sendData io f t s) = Started \<Longrightarrow>
     c_type q = Queue \<Longrightarrow> load q < num_or (capacity q) 10"
  by (auto simp: sendData_def Let_def load_def split: option.splits if_splits)

lemma send_queue_ok:
  assumes ok: "\<forall>c\<in>set (connections s). queue_ok c" and d: "distinct (map c_id (connections s))"
  shows "\<forall>c\<in>set (connections (after (sendData io f t s) s)). queue_ok c"
proof (cases "resolve f t (connections s)")
  case None
  with ok show ?thesis by (simp add: send_connections)
next
  case (Some q)
  show ?thesis
  proof (cases "outcome (sendData io f t s) = Started")
    case False
    with Some ok show ?thesis by (simp add: send_connections)
  next
    case True
    show ?thesis
    proof (cases "saturated s")
      case True
      with \<open>outcome (sendData io f t s) = Started\<close> Some ok show ?thesis
        by (auto simp: send_connections intro: queue_ok_mark)
    next
      case False
      let ?g = "\<lambda>c. if c_id c = c_id q
              then c\<lparr>c_state := ConnActive, currentLoad := Some (num_or (currentLoad c) 0 + 1)\<rparr>
              else c"
      from Some have q: "q \<in> set (connections s)" by (rule resolve_mem)
      have "queue_ok (?g c)" if c: "c \<in> set (connections s)" for c
      proof (cases "c_id c = c_id q")
        case True
        with d c q have "c = q" by (blast intro: same_id_same_connection)
        with True ok q send_started_room [OF Some \<open>outcome (sendData io f t s) = Started\<close>]
        show ?thesis by (auto intro: queue_ok_inc)
      next
        case False
        with ok c show ?thesis by simp
      qed
      then have "\<forall>c\<in>set (map ?g (connections s)). queue_ok c"
        unfolding set_map by blast
      moreover have "connections (after (sendData io f t s) s) = map ?g (connections s)"
        using False \<open>outcome (sendData io f t s) = Started\<close> Some
        by (simp add: send_connections)
      ultimately show ?thesis by simp
    qed
  qed
qed

lemma consume_connections:
  "connections (after (consumeData io f t s) s) =
     (case resolve f t (connections s) of
        None \<Rightarrow> connections s
      | Some q \<Rightarrow>
          if outcome (consumeData io f t s) = Started then
            map (\<lambda>c. if c_id c = c_id q
                      then c\<lparr>c_state := ConnActive,
                             currentLoad := Some (max 0 (num_or (currentLoad c) 1 - 1))\<rparr>
                      else c) (connections s)
          else connections s)"
  by (auto simp: consumeData_def consume_transfer_def after_def Let_def
      split: option.splits if_splits)

lemma consume_queue_ok:
  assumes ok: "\<forall>c\<in>set (connections s). queue_ok c"
  shows "\<forall>c\<in>set (connections (after (consumeData io f t s) s)). queue_ok c"
  using ok by (auto simp: consume_connections intro: queue_ok_consume split: option.splits)

lemma decrementLoad_queue_ok:
  "\<forall>c\<in>set cs. queue_ok c \<Longrightarrow> \<forall>c\<in>set (decrementLoad k cs). queue_ok c"
  by (auto simp: decrementLoad_def intro: queue_ok_decrement)

lemma completion_queue_ok:
  "\<forall>c\<in>set cs. queue_ok c \<Longrightarrow>
     \<forall>c\<in>set (fold (\<lambda>transfer cs.
                        case find (\<lambda>c. c_id c = connectionId transfer) snapshot of
                          Some connection \<Rightarrow> decrementLoad (c_id connection) cs
                        | None \<Rightarrow> cs) done cs). queue_ok c"
proof (induction "done" arbitrary: cs)
  case Nil
  then show ?case by simp
next
  case (Cons a as)
  show ?case
    by (cases "find (\<lambda>c. c_id c = connectionId a) snapshot")
      (use Cons in \<open>auto intro!: Cons.IH dest: decrementLoad_queue_ok\<close>)
qed

lemma tick_queue_ok:
  "\<forall>c\<in>set (connections cur). queue_ok c \<Longrightarrow> \<forall>c\<in>set (connections (tick cl cur)). queue_ok c"
  unfolding tick_def Let_def by (simp add: completion_queue_ok)

text \<open>
  C4. If every queue connection of the canvas has a positive capacity and a load between 0
  and that capacity, and the connection identifiers are distinct, then the same holds after
  a send, after a consume and after a tick of the progress ticker with its completion
  decrements.
\<close>

theorem queue_load_within_capacity:
  assumes "\<forall>c\<in>set (connections s). queue_ok c" and "distinct (map c_id (connections s))"
  shows "(\<forall>c\<in>set (connections (after (sendData io f t s) s)). queue_ok c) \<and>
     (\<forall>c\<in>set (connections (after (consumeData io f t s) s)). queue_ok c) \<and>
     (\<forall>c\<in>set (connections (tick cl s)). queue_ok c)"
  using assms send_queue_ok consume_queue_ok tick_queue_ok by blast

theorem queue_load_within_capacity_witness:
  "list_all queue_ok (connections (createProducerConsumerSimulation ''producer'' ''consumer''
       ''buffer'' ''q1'' ''q2'')) \<and>
   distinct (map c_id (connections (createProducerConsumerSimulation ''producer'' ''consumer''
       ''buffer'' ''q1'' ''q2''))) \<and>
   list_all queue_ok (connections (after (sendData (mk_inputs False ''1'') ''producer'' ''buffer''
        (createProducerConsumerSimulation ''producer'' ''consumer'' ''buffer'' ''q1'' ''q2''))
      (createProducerConsumerSimulation ''producer'' ''consumer'' ''buffer'' ''q1'' ''q2''))) \<and>
   list_all queue_ok (connections (after (consumeData (mk_inputs False ''1'') ''producer'' ''buffer''
        (createProducerConsumerSimulation ''producer'' ''consumer'' ''buffer'' ''q1'' ''q2''))
      (createProducerConsumerSimulation ''producer'' ''consumer'' ''buffer'' ''q1'' ''q2'')))"
proof -
  let ?s = "createProducerConsumerSimulation ''producer'' ''consumer'' ''buffer'' ''q1'' ''q2''"
  have ok: "\<forall>c\<in>set (connections ?s). queue_ok c"
    by (simp add: createProducerConsumerSimulation_def demoConnection_def queue_ok_def load_def
        num_or_def)
  have d: "distinct (map c_id (connections ?s))"
    by (simp add: createProducerConsumerSimulation_def demoConnection_def)
  from queue_load_within_capacity [OF ok d] ok d show ?thesis
    unfolding list_all_iff by blast
qed

section \<open>QueueFull\<close>

lemma find_map_same:
  "(\<And>x. P (g x) = P x) \<Longrightarrow> find P (map g xs) = map_option g (find P xs)"
  by (induction xs) auto

lemma queue_full_iff:
  assumes "resolve f t (connections s) = Some q" "c_type q = Queue" "capacity q = Some c" "0 < c"
  shows "outcome (sendData io f t s) = QueueFull \<longleftrightarrow> c \<le> load q"
  using assms
  by (auto simp: sendData_def load_def num_or_def memory_region_of_def Let_def)

lemma queue_full_unchanged:
  "outcome (sendData io f t s) = QueueFull \<Longrightarrow> after (sendData io f t s) s = s"
  by (auto simp: sendData_def after_def Let_def split: option.splits if_splits)

lemma queue_send_started:
  assumes "resolve f t (connections s) = Some q" "c_type q = Queue"
    and "outcome (sendData io f t s) = Started" "\<not> saturated s"
  shows "resolve f t (connections (after (sendData io f t s) s)) =
     Some (q\<lparr>c_state := ConnActive, currentLoad := Some (load q + 1)\<rparr>)"
proof -
  let ?g = "\<lambda>c. if c_id c = c_id q
     then c\<lparr>c_state := ConnActive, currentLoad := Some (num_or (currentLoad c) 0 + 1)\<rparr> else c"
  from assms have "connections (after (sendData io f t s) s) = map ?g (connections s)"
    by (auto simp: sendData_def after_def Let_def memory_region_of_def checkForDeadlocks_def
        split: if_splits)
  moreover have "resolve f t (map ?g (connections s)) = map_option ?g (resolve f t (connections s))"
    unfolding resolve_def by (rule find_map_same) simp
  ultimately show ?thesis using assms(1) by (simp add: load_def)
qed

lemma demo_send:
  assumes c: "connections s = [demo_queue k1 P B st n, demoConnection Queue (Some 5) k2 B C]"
    and p: "length (processes s) = 3" and k: "k1 \<noteq> k2" and n: "0 \<le> n" "n < 5"
    and b: "\<not> blockRoll io"
  shows "outcome (sendData io P B s) = Started \<and>
     connections (after (sendData io P B s) s) =
       [demo_queue k1 P B ConnActive (n + 1), demoConnection Queue (Some 5) k2 B C] \<and>
     length (processes (after (sendData io P B s) s)) = 3"
proof -
  have "length (busyProcesses (filter (\<lambda>c. c_state c = ConnActive) (connections s))) \<le> 2"
    by (simp add: c busyProcesses_def demo_queue_def demoConnection_def set_add_def)
  with p have ns: "\<not> saturated s" by (simp add: saturated_def Let_def)
  have r: "resolve P B (connections s) = Some (demo_queue k1 P B st n)"
    by (simp add: resolve_def c demo_queue_def demoConnection_def)
  from r n b have out: "outcome (sendData io P B s) = Started"
    by (simp add: sendData_def demo_queue_def demoConnection_def num_or_def memory_region_of_def
        Let_def)
  from r n b ns k have "connections (after (sendData io P B s) s) =
       [demo_queue k1 P B ConnActive (n + 1), demoConnection Queue (Some 5) k2 B C]"
    by (simp add: sendData_def after_def Let_def checkForDeadlocks_def c demo_queue_def
        demoConnection_def num_or_def memory_region_of_def)
  moreover from r n b ns have "length (processes (after (sendData io P B s) s)) = 3"
    by (simp add: sendData_def after_def Let_def checkForDeadlocks_def p demo_queue_def
        demoConnection_def num_or_def memory_region_of_def)
  ultimately show ?thesis using out by simp
qed

lemma demo_sends:
  assumes "connections s = [demo_queue k1 P B st n, demoConnection Queue (Some 5) k2 B C]"
    and "length (processes s) = 3" and "k1 \<noteq> k2" and "0 \<le> n" "n + int (length ios) \<le> 5"
    and "\<forall>io\<in>set ios. \<not> blockRoll io"
  shows "fst (sends ios P B s) = replicate (length ios) Started \<and>
     (\<exists>st'. connections (snd (sends ios P B s)) =
       [demo_queue k1 P B st' (n + int (length ios)), demoConnection Queue (Some 5) k2 B C]) \<and>
     length (processes (snd (sends ios P B s))) = 3"
  using assms
proof (induction ios arbitrary: s st n)
  case Nil
  then show ?case by auto
next
  case (Cons io ios)
  let ?s1 = "after (sendData io P B s) s"
  from Cons.prems have "n < 5" "\<not> blockRoll io" by auto
  from demo_send [OF Cons.prems(1,2,3,4) this]
  have 1: "outcome (sendData io P B s) = Started"
    and 2: "connections ?s1 = [demo_queue k1 P B ConnActive (n + 1), demoConnection Queue (Some 5) k2 B C]"
    and 3: "length (processes ?s1) = 3" by auto
  from Cons.prems have "0 \<le> n + 1" "n + 1 + int (length ios) \<le> 5" "\<forall>io\<in>set ios. \<not> blockRoll io"
    by auto
  from Cons.IH [OF 2 3 Cons.prems(3) this] 1
  have "fst (sends (io # ios) P B s) = replicate (length (io # ios)) Started"
    and "\<exists>st'. connections (snd (sends (io # ios) P B s)) =
       [demo_queue k1 P B st' (n + 1 + int (length ios)), demoConnection Queue (Some 5) k2 B C]"
    and "length (processes (snd (sends (io # ios) P B s))) = 3"
    by auto
  moreover have "n + 1 + int (length ios) = n + int (length (io # ios))" by simp
  ultimately show ?case by metis
qed

lemma demo_scenario:
  assumes "length ios = 5" and "\<forall>io\<in>set ios. \<not> blockRoll io" and "k1 \<noteq> k2"
  shows "fst (sends ios P B (createProducerConsumerSimulation P C B k1 k2)) = replicate 5 Started \<and>
     map load (connections (snd (sends ios P B (createProducerConsumerSimulation P C B k1 k2)))) = [5, 0] \<and>
     outcome (sendData io P B (snd (sends ios P B (createProducerConsumerSimulation P C B k1 k2)))) = QueueFull \<and>
     after (sendData io P B (snd (sends ios P B (createProducerConsumerSimulation P C B k1 k2))))
       (snd (sends ios P B (createProducerConsumerSimulation P C B k1 k2))) =
       snd (sends ios P B (createProducerConsumerSimulation P C B k1 k2))"
proof -
  let ?s0 = "createProducerConsumerSimulation P C B k1 k2"
  let ?s5 = "snd (sends ios P B ?s0)"
  have c0: "connections ?s0 = [demo_queue k1 P B ConnIdle 0, demoConnection Queue (Some 5) k2 B C]"
    by (simp add: createProducerConsumerSimulation_def demo_queue_def demoConnection_def)
  have p0: "length (processes ?s0) = 3"
    by (simp add: createProducerConsumerSimulation_def)
  from demo_sends [OF c0 p0 assms(3), of ios] assms(1,2)
  obtain st' where outs: "fst (sends ios P B ?s0) = replicate 5 Started"
    and c5: "connections ?s5 = [demo_queue k1 P B st' 5, demoConnection Queue (Some 5) k2 B C]"
    by auto
  have r: "resolve P B (connections ?s5) = Some (demo_queue k1 P B st' 5)"
    by (simp add: resolve_def c5 demo_queue_def demoConnection_def)
  have "outcome (sendData io P B ?s5) = QueueFull"
    using queue_full_iff [OF r, of 5 io]
    by (simp add: demo_queue_def demoConnection_def load_def num_or_def)
  moreover from this have "after (sendData io P B ?s5) ?s5 = ?s5" by (rule queue_full_unchanged)
  moreover have "map load (connections ?s5) = [5, 0]"
    by (simp add: c5 demo_queue_def demoConnection_def load_def num_or_def)
  ultimately show ?thesis using outs by simp
qed

text \<open>
  C6. The scenario of the claim, run where the saturation test fires: the producer and the
  buffer alone on the canvas, joined by a queue of capacity 5 and load 0. Five sends without
  a random block all start. The first leaves the load at 1. The second starts and asks for
  the load 2, but \<^verbatim>\<open>checkForDeadlocks\<close>, called last, installs the connections of the snapshot
  with the active ones marked, so the load stays 1 and the queue is deadlocked. After the
  five sends the load is 3, not 5, and a sixth send starts instead of failing with QueueFull.
\<close>

theorem five_sends_reach_three:
  "fst (sends [mk_inputs False ''1'', mk_inputs False ''2'', mk_inputs False ''3'',
               mk_inputs False ''4'', mk_inputs False ''5''] ''producer'' ''buffer'' lone_queue) =
     [Started, Started, Started, Started, Started] \<and>
   map currentLoad (connections (snd (sends [mk_inputs False ''1'', mk_inputs False ''2'',
       mk_inputs False ''3'', mk_inputs False ''4'', mk_inputs False ''5'']
       ''producer'' ''buffer'' lone_queue))) = [Some 3] \<and>
   outcome (sendData (mk_inputs False ''6'') ''producer'' ''buffer''
     (snd (sends [mk_inputs False ''1'', mk_inputs False ''2'',
       mk_inputs False ''3'', mk_inputs False ''4'', mk_inputs False ''5'']
       ''producer'' ''buffer'' lone_queue))) = Started \<and>
   map currentLoad (connections (snd (sends [mk_inputs False ''1'']
       ''producer'' ''buffer'' lone_queue))) = [Some 1] \<and>
   fst (sends [mk_inputs False ''1'', mk_inputs False ''2''] ''producer'' ''buffer'' lone_queue) =
     [Started, Started] \<and>
   map currentLoad (connections (snd (sends [mk_inputs False ''1'', mk_inputs False ''2'']
       ''producer'' ''buffer'' lone_queue))) = [Some 1] \<and>
   map c_state (connections (snd (sends [mk_inputs False ''1'', mk_inputs False ''2'']
       ''producer'' ''buffer'' lone_queue))) = [ConnDeadlocked]"
  by code_simp

section \<open>The reader and writer discipline\<close>

lemma written_connections_append [simp]:
  "written_connections (ws @ ws') = written_connections ws @ written_connections ws'"
  by (induction ws rule: written_connections.induct) auto

lemma regions_ok_same_regions:
  assumes "map memoryRegion cs' = map memoryRegion cs" and "regions_ok cs"
  shows "regions_ok cs'"
proof -
  from assms(1) have "memoryRegion ` set cs' = memoryRegion ` set cs"
    by (metis set_map)
  then have eq: "(\<exists>c\<in>set cs'. memoryRegion c = Some r) \<longleftrightarrow> (\<exists>c\<in>set cs. memoryRegion c = Some r)" for r
    by (metis (no_types, lifting) image_iff)
  from assms(2) have 1: "semaphore_ok (semaphore r)" if "\<exists>c\<in>set cs. memoryRegion c = Some r" for r
    using that unfolding regions_ok_def by blast
  from assms(2) have 2: "semaphore r = semaphore r'"
    if "\<exists>c\<in>set cs. memoryRegion c = Some r" "\<exists>c\<in>set cs. memoryRegion c = Some r'"
      "region_id r = region_id r'" for r r'
    using that unfolding regions_ok_def by blast
  show ?thesis
    unfolding regions_ok_def using 1 2 eq by blast
qed

lemma regions_ok_update:
  assumes ok: "regions_ok cs" and q: "q \<in> set cs" and r: "memoryRegion q = Some R"
    and u: "semaphore_ok (upd (semaphore R))"
  shows "regions_ok (map (\<lambda>c. if references c R then set_semaphore upd c else c) cs)"
proof -
  let ?g = "\<lambda>c. if references c R then set_semaphore upd c else c"
  have same: "semaphore r = semaphore R"
    if "c \<in> set cs" "memoryRegion c = Some r" "region_id r = region_id R" for c r
    using ok q r that unfolding regions_ok_def by blast
  have img: "memoryRegion (?g c) = Some r' \<Longrightarrow> c \<in> set cs \<Longrightarrow>
      (\<exists>r. memoryRegion c = Some r \<and> region_id r' = region_id r \<and>
        semaphore r' = (if region_id r = region_id R then upd (semaphore R) else semaphore r))" for c r'
    using same [of c] by (auto simp: references_def set_semaphore_def split: if_splits)
  have sem: "semaphore_ok (semaphore r)" if "c \<in> set cs" "memoryRegion c = Some r" for c r
    using ok that unfolding regions_ok_def by blast
  have coh: "semaphore r = semaphore r'"
    if "c \<in> set cs" "memoryRegion c = Some r" "c' \<in> set cs" "memoryRegion c' = Some r'"
      "region_id r = region_id r'" for c r c' r'
    using ok that unfolding regions_ok_def by blast
  show ?thesis
    unfolding regions_ok_def
  proof (intro conjI ballI allI impI)
    fix c r' assume "c \<in> set (map ?g cs)" "memoryRegion c = Some r'"
    then obtain c0 where c0: "c0 \<in> set cs" "c = ?g c0" by auto
    with \<open>memoryRegion c = Some r'\<close> img [of c0 r'] obtain r where
      "memoryRegion c0 = Some r" "semaphore r' = (if region_id r = region_id R then upd (semaphore R) else semaphore r)"
      by auto
    with u sem [OF c0(1)] show "semaphore_ok (semaphore r')" by auto
  next
    fix c c' r1 r2
    assume "c \<in> set (map ?g cs)" "c' \<in> set (map ?g cs)"
      and h: "memoryRegion c = Some r1 \<and> memoryRegion c' = Some r2 \<and> region_id r1 = region_id r2"
    then obtain c0 c0' where c0: "c0 \<in> set cs" "c = ?g c0" "c0' \<in> set cs" "c' = ?g c0'" by auto
    with h img [of c0 r1] img [of c0' r2] obtain a b where
      a: "memoryRegion c0 = Some a" "region_id r1 = region_id a"
        "semaphore r1 = (if region_id a = region_id R then upd (semaphore R) else semaphore a)"
      and b: "memoryRegion c0' = Some b" "region_id r2 = region_id b"
        "semaphore r2 = (if region_id b = region_id R then upd (semaphore R) else semaphore b)"
      by auto
    with h have "region_id a = region_id b" by simp
    with a b coh [OF c0(1) a(1) c0(3) b(1)] show "semaphore r1 = semaphore r2" by auto
  qed
qed

lemma region_semaphore_ok:
  "regions_ok cs \<Longrightarrow> q \<in> set cs \<Longrightarrow> memoryRegion q = Some R \<Longrightarrow> semaphore_ok (semaphore R)"
  unfolding regions_ok_def by blast

lemma semaphore_ok_write:
  "semaphore_ok m \<Longrightarrow> \<not> hasWriter m \<Longrightarrow> \<not> 0 < currentReaders m \<Longrightarrow>
     semaphore_ok (m\<lparr>hasWriter := True\<rparr>)"
  by (auto simp: semaphore_ok_def)

lemma semaphore_ok_unwrite: "semaphore_ok m \<Longrightarrow> semaphore_ok (m\<lparr>hasWriter := False\<rparr>)"
  by (auto simp: semaphore_ok_def)

lemma semaphore_ok_read:
  "semaphore_ok m \<Longrightarrow> \<not> hasWriter m \<Longrightarrow> \<not> maxReaders m \<le> currentReaders m \<Longrightarrow>
     semaphore_ok (m\<lparr>currentReaders := currentReaders m + 1\<rparr>)"
  by (auto simp: semaphore_ok_def)

lemma semaphore_ok_unread:
  "semaphore_ok m \<Longrightarrow> semaphore_ok (m\<lparr>currentReaders := max 0 (currentReaders m - 1)\<rparr>)"
  by (auto simp: semaphore_ok_def)

lemma regions_ok_mark:
  "regions_ok cs \<Longrightarrow> regions_ok (map (\<lambda>c. c\<lparr>c_state := f c\<rparr>) cs)"
  by (rule regions_ok_same_regions) (simp_all add: comp_def)

lemma regions_ok_load:
  "regions_ok cs \<Longrightarrow>
     regions_ok (map (\<lambda>c. if P c then c\<lparr>c_state := ConnActive, currentLoad := f c\<rparr> else c) cs)"
  by (rule regions_ok_same_regions) (simp_all add: comp_def if_distrib cong: if_cong)

lemma memory_region_of_Some: "memory_region_of q = Some R \<Longrightarrow> memoryRegion q = Some R"
  by (simp add: memory_region_of_def split: if_splits)

lemma release_regions_ok:
  assumes ok: "regions_ok (connections s)" and q: "q \<in> set (connections s)"
  shows "\<forall>cs\<in>set (written_connections (sendData_release q p r s)). regions_ok cs"
    and "\<forall>cs\<in>set (written_connections (consumeData_release q p r s)). regions_ok cs"
proof -
  have w: "written_connections (wake_waiters q s) = []"
    by (simp add: wake_waiters_def Let_def split: option.splits)
  show "\<forall>cs\<in>set (written_connections (sendData_release q p r s)). regions_ok cs"
  proof (cases "memory_region_of q")
    case None
    then show ?thesis by (simp add: sendData_release_def release_process_def w)
  next
    case (Some R)
    then have R: "memoryRegion q = Some R" by (rule memory_region_of_Some)
    from region_semaphore_ok [OF ok q R]
    have "semaphore_ok ((semaphore R)\<lparr>hasWriter := False\<rparr>)"
      by (rule semaphore_ok_unwrite)
    with regions_ok_update [OF ok q R, of "\<lambda>m. m\<lparr>hasWriter := False\<rparr>"] Some show ?thesis
      by (simp add: sendData_release_def release_process_def w)
  qed
  show "\<forall>cs\<in>set (written_connections (consumeData_release q p r s)). regions_ok cs"
  proof (cases "memory_region_of q")
    case None
    then show ?thesis by (simp add: consumeData_release_def release_process_def w)
  next
    case (Some R)
    then have R: "memoryRegion q = Some R" by (rule memory_region_of_Some)
    from region_semaphore_ok [OF ok q R]
    have "semaphore_ok ((semaphore R)\<lparr>currentReaders := max 0 (currentReaders (semaphore R) - 1)\<rparr>)"
      by (rule semaphore_ok_unread)
    with regions_ok_update [OF ok q R,
        of "\<lambda>m. m\<lparr>currentReaders := max 0 (currentReaders m - 1)\<rparr>"] Some
    show ?thesis
      by (simp add: consumeData_release_def release_process_def w)
  qed
qed

lemma checkForDeadlocks_regions_ok:
  "regions_ok (connections s) \<Longrightarrow> \<forall>cs\<in>set (written_connections (checkForDeadlocks s)). regions_ok cs"
  by (auto simp: checkForDeadlocks_def intro: regions_ok_mark)

lemma send_regions_ok:
  assumes ok: "regions_ok (connections s)"
  shows "\<forall>cs\<in>set (written_connections (all_writes (sendData io f t s))). regions_ok cs"
proof (cases "resolve f t (connections s)")
  case None
  then show ?thesis by (simp add: sendData_def all_writes_def)
next
  case (Some q)
  then have q: "q \<in> set (connections s)" by (rule resolve_mem)
  note rel = release_regions_ok(1) [OF ok q]
  note chk = checkForDeadlocks_regions_ok [OF ok]
  note ld = regions_ok_load [OF ok]
  show ?thesis
  proof (cases "memory_region_of q")
    case None
    with Some rel chk ld show ?thesis
      by (auto simp: sendData_def all_writes_def Let_def)
  next
    case R: (Some R)
    then have mR: "memoryRegion q = Some R" by (rule memory_region_of_Some)
    note sem = region_semaphore_ok [OF ok q mR]
    have acq: "regions_ok (map (\<lambda>c. if references c R
         then set_semaphore (\<lambda>m. m\<lparr>hasWriter := True\<rparr>) c else c) (connections s))"
      if "\<not> hasWriter (semaphore R)" "\<not> 0 < currentReaders (semaphore R)"
      using regions_ok_update [OF ok q mR, of "\<lambda>m. m\<lparr>hasWriter := True\<rparr>"]
        semaphore_ok_write [OF sem that] by simp
    from Some R rel chk ld acq show ?thesis
      by (auto simp: sendData_def all_writes_def Let_def)
  qed
qed

lemma consume_regions_ok:
  assumes ok: "regions_ok (connections s)"
  shows "\<forall>cs\<in>set (written_connections (all_writes (consumeData io f t s))). regions_ok cs"
proof (cases "resolve f t (connections s)")
  case None
  then show ?thesis by (simp add: consumeData_def all_writes_def)
next
  case (Some q)
  then have q: "q \<in> set (connections s)" by (rule resolve_mem)
  note rel = release_regions_ok(2) [OF ok q]
  note ld = regions_ok_load [OF ok]
  show ?thesis
  proof (cases "memory_region_of q")
    case None
    with Some rel ld show ?thesis
      by (auto simp: consumeData_def consume_transfer_def all_writes_def Let_def)
  next
    case R: (Some R)
    then have mR: "memoryRegion q = Some R" by (rule memory_region_of_Some)
    note sem = region_semaphore_ok [OF ok q mR]
    have acq: "regions_ok (map (\<lambda>c. if references c R
         then set_semaphore (\<lambda>m. m\<lparr>currentReaders := currentReaders m + 1\<rparr>) c else c)
         (connections s))"
      if "\<not> hasWriter (semaphore R)" "\<not> maxReaders (semaphore R) \<le> currentReaders (semaphore R)"
      using regions_ok_update [OF ok q mR, of "\<lambda>m. m\<lparr>currentReaders := currentReaders m + 1\<rparr>"]
        semaphore_ok_read [OF sem that] by simp
    from Some R rel ld acq show ?thesis
      by (auto simp: consumeData_def consume_transfer_def all_writes_def Let_def)
  qed
qed

lemma commit_connections:
  "connections (commit ws s) = connections s \<or> connections (commit ws s) \<in> set (written_connections ws)"
proof (induction ws arbitrary: s)
  case Nil
  then show ?case by simp
next
  case (Cons w ws)
  from Cons.IH [of "apply_write w s"] show ?case
    by (cases w) auto
qed

lemma timer_writes:
  "(d, ws) \<in> set tms \<Longrightarrow>
     set (written_connections ws) \<subseteq> set (written_connections (concat (map snd tms)))"
  by (induction tms) auto

text \<open>
  C5. If every region record on the canvas has a semaphore with no writer beside a reader
  and a reader count from 0 to \<^verbatim>\<open>maxReaders\<close>, and the records of one region agree, then so
  has every connection list that a send or a consume asks to install, at once (write and read
  acquisition) or from its release timer (write and read release), and so has the canvas
  after the call and after the timer.
\<close>

theorem semaphore_discipline_kept:
  assumes "regions_ok (connections s)"
    and "e = sendData io f t s \<or> e = consumeData io f t s"
  shows "(\<forall>cs\<in>set (written_connections (all_writes e)). regions_ok cs) \<and>
     regions_ok (connections (after e s)) \<and>
     (\<forall>d ws s'. (d, ws) \<in> set (timers e) \<and> regions_ok (connections s') \<longrightarrow>
        regions_ok (connections (commit ws s')))"
proof -
  from assms send_regions_ok [of s io f t] consume_regions_ok [of s io f t]
  have all: "\<forall>cs\<in>set (written_connections (all_writes e)). regions_ok cs" by blast
  have "regions_ok (connections (after e s))"
    using commit_connections [of "writes e" s] all assms(1)
    by (auto simp: after_def all_writes_def)
  moreover have "regions_ok (connections (commit ws s'))"
    if "(d, ws) \<in> set (timers e)" "regions_ok (connections s')" for d ws s'
  proof -
    from timer_writes [OF that(1)]
    have "set (written_connections ws) \<subseteq> set (written_connections (all_writes e))"
      by (auto simp: all_writes_def)
    with commit_connections [of ws s'] all that(2) show ?thesis by auto
  qed
  ultimately show ?thesis using all by blast
qed

theorem semaphore_discipline_kept_witness:
  "regions_ok (connections (memory_canvas free_semaphore Idle Idle)) \<and>
   regions_ok (connections (after (sendData (mk_inputs False ''1'') ''P'' ''Q''
       (memory_canvas free_semaphore Idle Idle)) (memory_canvas free_semaphore Idle Idle))) \<and>
   list_all regions_ok (written_connections (all_writes (sendData (mk_inputs False ''1'') ''P'' ''Q''
       (memory_canvas free_semaphore Idle Idle)))) \<and>
   list_all regions_ok (written_connections (all_writes (consumeData (mk_inputs False ''1'') ''P'' ''Q''
       (memory_canvas free_semaphore Idle Idle))))"
proof -
  have ok: "regions_ok (connections (memory_canvas free_semaphore Idle Idle))"
    by (simp add: regions_ok_def memory_canvas_def shared_region_def free_semaphore_def
        semaphore_ok_def demoConnection_def)
  from semaphore_discipline_kept [OF ok disjI1 [OF refl]]
    semaphore_discipline_kept [OF ok disjI2 [OF refl]] ok
  show ?thesis
    unfolding list_all_iff by blast
qed

section \<open>Memory connections without a region\<close>

lemma quiet_checkForDeadlocks: "w \<in> set (checkForDeadlocks s) \<Longrightarrow> quiet s w"
  by (auto simp: checkForDeadlocks_def list_all2_map1 list_all2_same comp_def split: if_splits)

lemma quiet_release:
  "memory_region_of q = None \<Longrightarrow> w \<in> set (sendData_release q p r s) \<Longrightarrow> quiet s w"
  "memory_region_of q = None \<Longrightarrow> w \<in> set (consumeData_release q p r s) \<Longrightarrow> quiet s w"
  by (auto simp: sendData_release_def consumeData_release_def release_process_def
      wake_waiters_def list_all2_map1 list_all2_same comp_def)

lemma regionless_send:
  assumes "resolve f t (connections s) = Some q" "c_type q = Memory" "memoryRegion q = None"
  shows "outcome (sendData io f t s) = Started \<and> (\<forall>w\<in>set (all_writes (sendData io f t s)). quiet s w)"
proof -
  from assms have m: "memory_region_of q = None" by (simp add: memory_region_of_def)
  with assms show ?thesis
    by (auto simp: sendData_def all_writes_def Let_def list_all2_map1 list_all2_same comp_def
        dest: quiet_checkForDeadlocks quiet_release(1) [OF m])
qed

lemma regionless_consume:
  assumes "resolve f t (connections s) = Some q" "c_type q = Memory" "memoryRegion q = None"
  shows "outcome (consumeData io f t s) = Started \<and>
     (\<forall>w\<in>set (all_writes (consumeData io f t s)). quiet s w)"
proof -
  from assms have m: "memory_region_of q = None" by (simp add: memory_region_of_def)
  with assms show ?thesis
    by (auto simp: consumeData_def consume_transfer_def all_writes_def Let_def list_all2_map1
        list_all2_same comp_def dest: quiet_release(2) [OF m])
qed


section \<open>The saturation test\<close>








lemma saturated_busy_pair: "saturated busy_pair"
  by (simp add: saturated_def busy_pair_def busyProcesses_def set_add_def activate_def
      demoConnection_def)

lemma not_saturated_bystander: "\<not> saturated cycle_with_bystander"
  by (simp add: saturated_def cycle_with_bystander_def deadlock_demo_active_def
      createDeadlockDemoSimulation_def busyProcesses_def set_add_def activate_def
      demoConnection_def)











section \<open>What a flagged deadlock marks\<close>

lemma marking_when_saturated:
  "saturated s \<Longrightarrow>
     commit (checkForDeadlocks s) s =
       s\<lparr>processes := map (\<lambda>p. p\<lparr>p_state := Deadlocked\<rparr>) (processes s),
         connections := map (\<lambda>c. if c_state c = ConnActive then c\<lparr>c_state := ConnDeadlocked\<rparr> else c)
           (connections s)\<rparr>"
proof -
  have "(\<lambda>c. c\<lparr>c_state := (if c_state c = ConnActive then ConnDeadlocked else c_state c)\<rparr>) =
      (\<lambda>c. if c_state c = ConnActive then c\<lparr>c_state := ConnDeadlocked\<rparr> else c)"
    by (rule ext) simp
  then show "saturated s \<Longrightarrow> ?thesis"
    by (simp add: checkForDeadlocks_def)
qed

lemma no_marking_otherwise: "\<not> saturated s \<Longrightarrow> commit (checkForDeadlocks s) s = s"
  by (simp add: checkForDeadlocks_def)

lemma demo_cycle:
  "detectDeadlockCycles (processes deadlock_demo_active) (connections deadlock_demo_active) =
     [\<lparr>cyc_processes = [''A'', ''B'', ''C'', ''A''], cyc_connections = [''c1'', ''c2'', ''c3''],
       resolved = False\<rparr>]"
  by code_simp

lemma saturated_demo: "saturated deadlock_demo_active"
  by (simp add: saturated_def deadlock_demo_active_def createDeadlockDemoSimulation_def
      busyProcesses_def set_add_def activate_def demoConnection_def)

lemma demo_marked:
  "map p_state (processes (commit (checkForDeadlocks deadlock_demo_active) deadlock_demo_active)) =
     [Deadlocked, Deadlocked, Deadlocked] \<and>
   map c_state (connections (commit (checkForDeadlocks deadlock_demo_active) deadlock_demo_active)) =
     [ConnDeadlocked, ConnDeadlocked, ConnDeadlocked]"
  by (simp add: marking_when_saturated [OF saturated_demo])
    (simp add: deadlock_demo_active_def createDeadlockDemoSimulation_def activate_def
      demoConnection_def mkProcess_def)

text \<open>
  C2 (amended). When \<^verbatim>\<open>checkForDeadlocks\<close> flags a deadlock, which is when the saturation test
  holds, every process of the canvas is set to deadlocked and exactly the connections that
  were active are set to deadlocked, and nothing else changes; when it does not, nothing
  changes. In the scenario of three processes \<open>A\<close>, \<open>B\<close>, \<open>C\<close> with the memory connections
  \<open>A \<rightarrow> B\<close>, \<open>B \<rightarrow> C\<close>, \<open>C \<rightarrow> A\<close> all active, \<open>detectDeadlockCycles\<close> reports exactly one
  cycle, \<open>[A, B, C, A]\<close>, and \<^verbatim>\<open>checkForDeadlocks\<close> marks the three processes and the three
  connections deadlocked.
\<close>

theorem deadlock_marking:
  "(saturated s \<longrightarrow>
      commit (checkForDeadlocks s) s =
        s\<lparr>processes := map (\<lambda>p. p\<lparr>p_state := Deadlocked\<rparr>) (processes s),
          connections :=
            map (\<lambda>c. if c_state c = ConnActive then c\<lparr>c_state := ConnDeadlocked\<rparr> else c)
              (connections s)\<rparr>) \<and>
   (\<not> saturated s \<longrightarrow> commit (checkForDeadlocks s) s = s) \<and>
   detectDeadlockCycles (processes deadlock_demo_active) (connections deadlock_demo_active) =
     [\<lparr>cyc_processes = [''A'', ''B'', ''C'', ''A''], cyc_connections = [''c1'', ''c2'', ''c3''],
       resolved = False\<rparr>] \<and>
   map p_state (processes (commit (checkForDeadlocks deadlock_demo_active) deadlock_demo_active)) =
     [Deadlocked, Deadlocked, Deadlocked] \<and>
   map c_state (connections (commit (checkForDeadlocks deadlock_demo_active) deadlock_demo_active)) =
     [ConnDeadlocked, ConnDeadlocked, ConnDeadlocked]"
  using marking_when_saturated [of s] no_marking_otherwise [of s] demo_cycle demo_marked
  by blast

theorem deadlock_marking_witness:
  "saturated busy_pair \<and> \<not> saturated cycle_with_bystander \<and>
   map p_state (processes (commit (checkForDeadlocks busy_pair) busy_pair)) =
     [Deadlocked, Deadlocked] \<and>
   commit (checkForDeadlocks cycle_with_bystander) cycle_with_bystander = cycle_with_bystander"
proof -
  from deadlock_marking [of busy_pair] saturated_busy_pair
  have "commit (checkForDeadlocks busy_pair) busy_pair =
      busy_pair\<lparr>processes := map (\<lambda>p. p\<lparr>p_state := Deadlocked\<rparr>) (processes busy_pair),
        connections :=
          map (\<lambda>c. if c_state c = ConnActive then c\<lparr>c_state := ConnDeadlocked\<rparr> else c)
            (connections busy_pair)\<rparr>"
    by blast
  then have "map p_state (processes (commit (checkForDeadlocks busy_pair) busy_pair)) =
      [Deadlocked, Deadlocked]"
    by (simp add: busy_pair_def)
  moreover from deadlock_marking [of cycle_with_bystander] not_saturated_bystander
  have "commit (checkForDeadlocks cycle_with_bystander) cycle_with_bystander = cycle_with_bystander"
    by blast
  ultimately show ?thesis using saturated_busy_pair not_saturated_bystander by blast
qed

lemma bystander_cycle:
  "detectDeadlockCycles (processes cycle_with_bystander) (connections cycle_with_bystander) =
     [\<lparr>cyc_processes = [''A'', ''B'', ''C'', ''A''], cyc_connections = [''c1'', ''c2'', ''c3''],
       resolved = False\<rparr>]"
  by code_simp

lemma pair_no_cycle:
  "detectDeadlockCycles (processes busy_pair) (connections busy_pair) = []"
  by code_simp

text \<open>
  C2 as stated fails both ways. With a fourth process that no connection touches, the cycle
  \<open>[A, B, C, A]\<close> is reported and no process is marked. With two processes and one active
  connection between them, no cycle is reported and both processes are marked deadlocked.
\<close>

theorem marking_ignores_cycles:
  "detectDeadlockCycles (processes cycle_with_bystander) (connections cycle_with_bystander) =
     [\<lparr>cyc_processes = [''A'', ''B'', ''C'', ''A''], cyc_connections = [''c1'', ''c2'', ''c3''],
       resolved = False\<rparr>] \<and>
   map p_state (processes (commit (checkForDeadlocks cycle_with_bystander) cycle_with_bystander)) =
     [Idle, Idle, Idle, Idle] \<and>
   detectDeadlockCycles (processes busy_pair) (connections busy_pair) = [] \<and>
   map p_state (processes busy_pair) = [Idle, Idle] \<and>
   map p_state (processes (commit (checkForDeadlocks busy_pair) busy_pair)) =
     [Deadlocked, Deadlocked]"
proof -
  have "map p_state (processes (commit (checkForDeadlocks cycle_with_bystander) cycle_with_bystander)) =
     [Idle, Idle, Idle, Idle]"
    by (simp add: no_marking_otherwise [OF not_saturated_bystander])
      (simp add: cycle_with_bystander_def deadlock_demo_active_def
        createDeadlockDemoSimulation_def mkProcess_def)
  moreover have "map p_state (processes (commit (checkForDeadlocks busy_pair) busy_pair)) =
     [Deadlocked, Deadlocked]"
    by (simp add: marking_when_saturated [OF saturated_busy_pair]) (simp add: busy_pair_def)
  moreover have "map p_state (processes busy_pair) = [Idle, Idle]"
    by (simp add: busy_pair_def mkProcess_def)
  ultimately show ?thesis using bystander_cycle pair_no_cycle by blast
qed

section \<open>Duplicate connections\<close>

lemma find_None_memory:
  "find (\<lambda>conn. c_type conn = Memory \<and> memoryRegion conn \<noteq> None) cs = None \<longleftrightarrow>
     \<not> (\<exists>c\<in>set cs. c_type c = Memory \<and> memoryRegion c \<noteq> None)"
  by (auto simp: find_None_iff)

lemma find_Some_memory:
  "find (\<lambda>conn. c_type conn = Memory \<and> memoryRegion conn \<noteq> None) cs = Some x \<Longrightarrow>
     x \<in> set cs \<and> c_type x = Memory \<and> memoryRegion x \<noteq> None"
  by (auto simp: find_Some_iff)

text \<open>
  C7 (amended). For a connect mode that is active from a process \<open>f\<close> to another process
  \<open>t\<close>, \<^verbatim>\<open>completeConnection\<close> rejects the connection as a duplicate exactly when it is not
  the case that the type is memory while some memory connection carries a region, and some
  connection of any type joins \<open>f\<close> to \<open>t\<close> or some pipe joins \<open>t\<close> to \<open>f\<close>. A rejection
  adds nothing. Otherwise one connection from \<open>f\<close> to \<open>t\<close> of the asked type is added at the
  end, and a memory connection made while some memory connection carries a region carries the
  region of one of them.
\<close>

theorem duplicate_connection_rule:
  assumes "cm_active cm" and "fromProcess cm = Some f" and "f \<noteq> []" and "f \<noteq> t"
  shows "(fst (completeConnection newId newRegionId t cm cs) = DuplicateConnection \<longleftrightarrow>
       \<not> (cm_type cm = Memory \<and> (\<exists>c\<in>set cs. c_type c = Memory \<and> memoryRegion c \<noteq> None)) \<and>
       (\<exists>c\<in>set cs. (c_from c = f \<and> c_to c = t) \<or>
                    (c_from c = t \<and> c_to c = f \<and> c_type c = Pipe))) \<and>
     (fst (completeConnection newId newRegionId t cm cs) = DuplicateConnection \<longrightarrow>
        snd (completeConnection newId newRegionId t cm cs) = cs) \<and>
     (fst (completeConnection newId newRegionId t cm cs) \<noteq> DuplicateConnection \<longrightarrow>
        fst (completeConnection newId newRegionId t cm cs) = Created \<and>
        (\<exists>new. snd (completeConnection newId newRegionId t cm cs) = cs @ [new] \<and>
           c_id new = newId \<and> c_from new = f \<and> c_to new = t \<and> c_type new = cm_type cm \<and>
           (cm_type cm = Memory \<and> (\<exists>c\<in>set cs. c_type c = Memory \<and> memoryRegion c \<noteq> None) \<longrightarrow>
              (\<exists>c\<in>set cs. c_type c = Memory \<and> memoryRegion c \<noteq> None \<and>
                 memoryRegion new = memoryRegion c))))"
proof (cases "cm_type cm = Memory \<and> (\<exists>c\<in>set cs. c_type c = Memory \<and> memoryRegion c \<noteq> None)")
  case True
  then obtain x where x: "find (\<lambda>conn. c_type conn = Memory \<and> memoryRegion conn \<noteq> None) cs = Some x"
    using find_None_memory [of cs] by (cases "find (\<lambda>conn. c_type conn = Memory \<and> memoryRegion conn \<noteq> None) cs") auto
  from find_Some_memory [OF x] True assms x show ?thesis
    by (auto simp: completeConnection_def)
next
  case False
  then have "(if cm_type cm = Memory
       then find (\<lambda>conn. c_type conn = Memory \<and> memoryRegion conn \<noteq> None) cs else None) = None"
    using find_None_memory [of cs] by auto
  with False assms show ?thesis
    by (auto simp: completeConnection_def list_ex_iff)
qed

theorem duplicate_connection_rule_witness:
  "fst (completeConnection ''n'' ''r'' ''B''
      \<lparr>cm_active = True, fromProcess = Some ''A'', cm_type = Pipe\<rparr>
      [demoConnection Pipe None ''c1'' ''B'' ''A'']) = DuplicateConnection \<and>
   snd (completeConnection ''n'' ''r'' ''B''
      \<lparr>cm_active = True, fromProcess = Some ''A'', cm_type = Pipe\<rparr>
      [demoConnection Pipe None ''c1'' ''B'' ''A'']) = [demoConnection Pipe None ''c1'' ''B'' ''A'']"
proof -
  let ?cm = "\<lparr>cm_active = True, fromProcess = Some ''A'', cm_type = Pipe\<rparr>"
  let ?cs = "[demoConnection Pipe None ''c1'' ''B'' ''A'']"
  have a: "cm_active ?cm" "fromProcess ?cm = Some ''A''" "''A'' \<noteq> []" "''A'' \<noteq> ''B''"
    by simp_all
  have "\<not> (cm_type ?cm = Memory \<and> (\<exists>c\<in>set ?cs. c_type c = Memory \<and> memoryRegion c \<noteq> None)) \<and>
       (\<exists>c\<in>set ?cs. (c_from c = ''A'' \<and> c_to c = ''B'') \<or>
                    (c_from c = ''B'' \<and> c_to c = ''A'' \<and> c_type c = Pipe))"
    by (simp add: demoConnection_def)
  with duplicate_connection_rule [OF a, of "''n''" "''r''" ?cs] show ?thesis by blast
qed

text \<open>
  C7 as stated fails: a pipe from \<open>A\<close> to \<open>B\<close> is rejected when only a queue joins them, a
  queue from \<open>A\<close> to \<open>B\<close> is rejected because of a pipe from \<open>B\<close> to \<open>A\<close>, and a memory
  connection is rejected when a pipe joins the pair and no memory connection carries a region.
\<close>

theorem duplicate_despite_other_type:
  "fst (completeConnection ''n'' ''r'' ''B''
      \<lparr>cm_active = True, fromProcess = Some ''A'', cm_type = Pipe\<rparr>
      [demoConnection Queue (Some 10) ''c1'' ''A'' ''B'']) = DuplicateConnection \<and>
   fst (completeConnection ''n'' ''r'' ''B''
      \<lparr>cm_active = True, fromProcess = Some ''A'', cm_type = Queue\<rparr>
      [demoConnection Pipe None ''c1'' ''B'' ''A'']) = DuplicateConnection \<and>
   fst (completeConnection ''n'' ''r'' ''B''
      \<lparr>cm_active = True, fromProcess = Some ''A'', cm_type = Memory\<rparr>
      [demoConnection Pipe None ''c1'' ''A'' ''B'']) = DuplicateConnection"
  by (simp add: completeConnection_def demoConnection_def)

section \<open>Release\<close>

lemma filter_neq_removeAll: "filter (\<lambda>r. r \<noteq> x) xs = removeAll x xs"
  by (induction xs) auto

lemma wake_none:
  "memory_region_of q = None \<Longrightarrow> wake_waiters q s = []"
  "memory_region_of q = Some R \<Longrightarrow> \<not> waiting_blocked R (processes s) \<Longrightarrow> wake_waiters q s = []"
  by (auto simp: wake_waiters_def waiting_blocked_def Let_def filter_empty_conv)

lemma wake_some:
  "memory_region_of q = Some R \<Longrightarrow> waiting_blocked R (processes s) \<Longrightarrow>
     wake_waiters q s =
       [SetProcesses (map (\<lambda>p. if waitingFor p = Some (region_id R)
                                then p\<lparr>p_state := Idle, waitingFor := None\<rparr> else p) (processes s))]"
  by (auto simp: wake_waiters_def waiting_blocked_def Let_def filter_empty_conv)

lemma release_connections:
  assumes "ws = sendData_release q P rid s \<and> upd = (\<lambda>m. m\<lparr>hasWriter := False\<rparr>) \<or>
           ws = consumeData_release q P rid s \<and>
             upd = (\<lambda>m. m\<lparr>currentReaders := max 0 (currentReaders m - 1)\<rparr>)"
  shows "connections (commit ws cur) =
     (case memory_region_of q of
        None \<Rightarrow> connections cur
      | Some R \<Rightarrow> map (\<lambda>c. if references c R then set_semaphore upd c else c) (connections s))"
proof -
  have "connections (commit (wake_waiters q s) x) = connections x" for x
    by (simp add: wake_waiters_def Let_def split: option.splits)
  with assms show ?thesis
    by (auto simp: sendData_release_def consumeData_release_def release_process_def
        split: option.splits)
qed

lemma release_processes_plain:
  assumes "ws = sendData_release q P rid s \<or> ws = consumeData_release q P rid s"
    and "\<forall>R. memory_region_of q = Some R \<longrightarrow> \<not> waiting_blocked R (processes s)"
  shows "processes (commit ws cur) = released P rid (processes s)"
proof -
  from assms(2) have "wake_waiters q s = []"
    by (cases "memory_region_of q") (auto simp: wake_none)
  with assms(1) show ?thesis
    by (auto simp: sendData_release_def consumeData_release_def release_process_def
        released_def filter_neq_removeAll split: option.splits)
qed

lemma release_processes_woken:
  assumes "ws = sendData_release q P rid s \<or> ws = consumeData_release q P rid s"
    and "memory_region_of q = Some R" and "waiting_blocked R (processes s)"
  shows "list_all2 (\<lambda>p p'. waitingFor p = Some (region_id R) \<longrightarrow>
            p' = p\<lparr>p_state := Idle, waitingFor := None\<rparr>)
          (processes s) (processes (commit ws cur))"
proof -
  from wake_some [OF assms(2,3)] assms(1,2)
  have "processes (commit ws cur) =
      map (\<lambda>p. if waitingFor p = Some (region_id R)
                then p\<lparr>p_state := Idle, waitingFor := None\<rparr> else p) (processes s)"
    by (auto simp: sendData_release_def consumeData_release_def release_process_def)
  then show ?thesis
    by (simp add: list_all2_map2 list_all2_same)
qed

text \<open>
  C9 (amended). The release callback of a send or a consume works on the snapshot \<open>s\<close> its
  handler closed over. For a memory connection with a region it installs the snapshot's
  connections with the writer flag cleared (send) or the reader count lowered by one, not
  below 0 (consume), on every record of that region; for any other connection it leaves the
  connections alone. When no process of the snapshot is blocked on the region (always so for
  a queue or a pipe), it installs the snapshot's processes with the holder idle, its handle
  removed and its \<^verbatim>\<open>memoryAccess\<close> cleared. When some process of the snapshot is blocked on
  the region, every process of the snapshot that waits for the region is installed idle and
  waiting for nothing.
\<close>

theorem release_effect:
  assumes "ws = sendData_release q P rid s \<and> upd = (\<lambda>m. m\<lparr>hasWriter := False\<rparr>) \<or>
           ws = consumeData_release q P rid s \<and>
             upd = (\<lambda>m. m\<lparr>currentReaders := max 0 (currentReaders m - 1)\<rparr>)"
  shows "connections (commit ws cur) =
       (case memory_region_of q of
          None \<Rightarrow> connections cur
        | Some R \<Rightarrow> map (\<lambda>c. if references c R then set_semaphore upd c else c) (connections s)) \<and>
     ((\<forall>R. memory_region_of q = Some R \<longrightarrow> \<not> waiting_blocked R (processes s)) \<longrightarrow>
        processes (commit ws cur) = released P rid (processes s)) \<and>
     (\<forall>R. memory_region_of q = Some R \<and> waiting_blocked R (processes s) \<longrightarrow>
        list_all2 (\<lambda>p p'. waitingFor p = Some (region_id R) \<longrightarrow>
            p' = p\<lparr>p_state := Idle, waitingFor := None\<rparr>)
          (processes s) (processes (commit ws cur)))"
  using assms release_connections [of ws q P rid s upd cur]
    release_processes_plain [of ws q P rid s cur]
    release_processes_woken [of ws q P rid s _ cur]
  by blast

theorem release_effect_witness:
  "waiting_blocked (shared_region free_semaphore)
     (processes (memory_canvas free_semaphore Idle Blocked)) \<and>
   list_all2 (\<lambda>p p'. waitingFor p = Some ''R'' \<longrightarrow> p' = p\<lparr>p_state := Idle, waitingFor := None\<rparr>)
     (processes (memory_canvas free_semaphore Idle Blocked))
     (processes (commit
        (sendData_release memory_link ''P'' ''mem_1'' (memory_canvas free_semaphore Idle Blocked))
        (memory_canvas free_semaphore Idle Blocked))) \<and>
   processes (commit
       (sendData_release (demoConnection Queue (Some 5) ''q1'' ''producer'' ''buffer'')
          ''producer'' ''res_1'' lone_queue) lone_queue) =
     released ''producer'' ''res_1'' (processes lone_queue)"
proof -
  let ?s = "memory_canvas free_semaphore Idle Blocked"
  let ?R = "shared_region free_semaphore"
  let ?q = "demoConnection Queue (Some 5) ''q1'' ''producer'' ''buffer''"
  have m: "memory_region_of memory_link = Some ?R"
    by (simp add: memory_link_def memory_region_of_def demoConnection_def)
  have w: "waiting_blocked ?R (processes ?s)"
    by (simp add: waiting_blocked_def memory_canvas_def shared_region_def mkProcess_def)
  have n: "\<forall>R. memory_region_of ?q = Some R \<longrightarrow> \<not> waiting_blocked R (processes lone_queue)"
    by (simp add: memory_region_of_def demoConnection_def)
  from release_effect [of "sendData_release memory_link ''P'' ''mem_1'' ?s" memory_link "''P''"
      "''mem_1''" ?s "\<lambda>m. m\<lparr>hasWriter := False\<rparr>" ?s] m w
  have "list_all2 (\<lambda>p p'. waitingFor p = Some (region_id ?R) \<longrightarrow>
            p' = p\<lparr>p_state := Idle, waitingFor := None\<rparr>)
          (processes ?s) (processes (commit (sendData_release memory_link ''P'' ''mem_1'' ?s) ?s))"
    by blast
  then have 1: "list_all2 (\<lambda>p p'. waitingFor p = Some ''R'' \<longrightarrow>
            p' = p\<lparr>p_state := Idle, waitingFor := None\<rparr>)
          (processes ?s) (processes (commit (sendData_release memory_link ''P'' ''mem_1'' ?s) ?s))"
    by (simp add: shared_region_def)
  from release_effect [of "sendData_release ?q ''producer'' ''res_1'' lone_queue" ?q "''producer''"
      "''res_1''" lone_queue "\<lambda>m. m\<lparr>hasWriter := False\<rparr>" lone_queue] n
  have 2: "processes (commit (sendData_release ?q ''producer'' ''res_1'' lone_queue) lone_queue) =
     released ''producer'' ''res_1'' (processes lone_queue)"
    by blast
  from w 1 2 show ?thesis by blast
qed

text \<open>
  C9 as stated fails. When a process is blocked on the region, the replacement that wakes the
  waiters is built from the snapshot and takes the place of the one that released the holder:
  a holder that was running when it sent is still running after its release. When the only
  process waiting for the region is not blocked (here it is deadlocked), nobody is woken: it
  still waits for the region.
\<close>

theorem release_skips_holder_or_waiter:
  "map snd (timers (sendData (mk_inputs False ''1'') ''P'' ''Q''
       (memory_canvas free_semaphore Running Blocked))) =
     [sendData_release memory_link ''P'' ''mem_1'' (memory_canvas free_semaphore Running Blocked)] \<and>
   map p_state (processes (commit
       (sendData_release memory_link ''P'' ''mem_1'' (memory_canvas free_semaphore Running Blocked))
       (after (sendData (mk_inputs False ''1'') ''P'' ''Q''
          (memory_canvas free_semaphore Running Blocked))
          (memory_canvas free_semaphore Running Blocked)))) = [Running, Idle, Idle] \<and>
   map p_state (processes (commit
       (sendData_release memory_link ''P'' ''mem_1'' (memory_canvas free_semaphore Idle Deadlocked))
       (after (sendData (mk_inputs False ''1'') ''P'' ''Q''
          (memory_canvas free_semaphore Idle Deadlocked))
          (memory_canvas free_semaphore Idle Deadlocked)))) = [Idle, Idle, Deadlocked] \<and>
   map waitingFor (processes (commit
       (sendData_release memory_link ''P'' ''mem_1'' (memory_canvas free_semaphore Idle Deadlocked))
       (after (sendData (mk_inputs False ''1'') ''P'' ''Q''
          (memory_canvas free_semaphore Idle Deadlocked))
          (memory_canvas free_semaphore Idle Deadlocked)))) = [None, None, Some ''R'']"
proof -
  have m: "memory_region_of memory_link = Some (shared_region free_semaphore)"
    by (simp add: memory_link_def memory_region_of_def demoConnection_def)
  have r: "resolve ''P'' ''Q'' (connections (memory_canvas free_semaphore Running Blocked)) =
      Some memory_link"
    by (simp add: resolve_def memory_canvas_def memory_link_def demoConnection_def)
  have 1: "map snd (timers (sendData (mk_inputs False ''1'') ''P'' ''Q''
       (memory_canvas free_semaphore Running Blocked))) =
     [sendData_release memory_link ''P'' ''mem_1'' (memory_canvas free_semaphore Running Blocked)]"
    by (simp add: sendData_def r m Let_def)
      (simp add: shared_region_def free_semaphore_def memory_link_def demoConnection_def
        mk_inputs_def)
  have 2: "map p_state (processes (commit
       (sendData_release memory_link ''P'' ''mem_1'' (memory_canvas free_semaphore Running Blocked))
       cur)) = [Running, Idle, Idle]" for cur
    by (simp add: sendData_release_def m release_process_def wake_waiters_def Let_def)
      (simp add: memory_canvas_def shared_region_def mkProcess_def)
  have 3: "map p_state (processes (commit
       (sendData_release memory_link ''P'' ''mem_1'' (memory_canvas free_semaphore Idle Deadlocked))
       cur)) = [Idle, Idle, Deadlocked] \<and>
     map waitingFor (processes (commit
       (sendData_release memory_link ''P'' ''mem_1'' (memory_canvas free_semaphore Idle Deadlocked))
       cur)) = [None, None, Some ''R'']" for cur
    by (simp add: sendData_release_def m release_process_def wake_waiters_def Let_def)
      (simp add: memory_canvas_def shared_region_def mkProcess_def)
  from 1 2 3 show ?thesis by blast
qed

end
